theory Spec2Isabelle
  imports Main "HOL-Library.Word"
begin

section \<open>pycas: reader for Atari 8-bit cassette (CAS) files\<close>

text \<open>
  A shallow embedding of \<^verbatim>\<open>src/pycas/cas_reader.py\<close>. A Python \<^verbatim>\<open>bytes\<close> object is a
  list of 8-bit words, a Python \<^verbatim>\<open>int\<close> is an \<open>int\<close>, a Python \<^verbatim>\<open>str\<close> is the list of
  its code points, and every exception the code can raise is a value of \<open>error\<close>.
  Lists, strings and byte strings have no bound on their length: the memory of an
  implementation, and the errors it raises when an object cannot be held, are outside the
  model.
\<close>

subsection \<open>Data model\<close>

type_synonym byte = "8 word"
type_synonym bytes = "byte list"

text \<open>A Python \<^verbatim>\<open>str\<close>: the list of its Unicode code points.\<close>

type_synonym pystr = "nat list"

definition str :: "string \<Rightarrow> pystr" where
  "str s = map of_char s"

datatype error = StructError | UnicodeDecodeError | ValueError

text \<open>\<^verbatim>\<open>ChunkType\<close>: the values of the enumeration the reader compares against.\<close>

definition FUJI :: bytes where "FUJI = [0x46, 0x55, 0x4A, 0x49]"
definition BAUD :: bytes where "BAUD = [0x62, 0x61, 0x75, 0x64]"
definition DATA :: bytes where "DATA = [0x64, 0x61, 0x74, 0x61]"

record chunk_header =
  chunk_type :: bytes
  length_hdr :: int
  aux_data :: int

record chunk =
  header :: chunk_header
  data :: bytes

text \<open>
  The fields of \<^verbatim>\<open>CASReader\<close> that the methods read and write. The file's contents are
  a parameter of \<open>read\<close>, in place of \<^verbatim>\<open>filepath\<close> and the call of \<^verbatim>\<open>open\<close>.
\<close>

record cas_reader =
  chunks :: "chunk list"
  data_blocks :: "bytes list"

definition init :: cas_reader where
  "init = \<lparr>chunks = [], data_blocks = []\<rparr>"

subsection \<open>Library functions the reader calls\<close>

text \<open>\<^verbatim>\<open>xs[i:j]\<close> for \<open>0 \<le> i\<close> and \<open>0 \<le> j\<close>: both ends are clipped to the list.\<close>

definition slice :: "'a list \<Rightarrow> nat \<Rightarrow> nat \<Rightarrow> 'a list" where
  "slice xs i j = take (j - i) (drop i xs)"

text \<open>\<^verbatim>\<open>struct.unpack('<H', bs)[0]\<close>: raises \<^verbatim>\<open>struct.error\<close> unless \<open>bs\<close> has 2 bytes.\<close>

fun unpack_H :: "bytes \<Rightarrow> error + int" where
  "unpack_H [lo, hi] = Inr (uint lo + 256 * uint hi)"
| "unpack_H _ = Inl StructError"

text \<open>\<^verbatim>\<open>struct.pack('<H', n)\<close>: raises \<^verbatim>\<open>struct.error\<close> unless \<open>0 \<le> n \<le> 65535\<close>.\<close>

definition pack_H :: "int \<Rightarrow> error + bytes" where
  "pack_H n = (if 0 \<le> n \<and> n \<le> 65535
               then Inr [word_of_int (n mod 256), word_of_int (n div 256)]
               else Inl StructError)"

subsection \<open>\<^verbatim>\<open>CASReader.read\<close>\<close>

text \<open>
  The \<^verbatim>\<open>while\<close> loop of \<^verbatim>\<open>read\<close>, from the offset and the reader's state to the state
  at the loop's exit. Both \<^verbatim>\<open>break\<close>s and the failed loop test return the state.
  The locals \<^verbatim>\<open>chunk_type\<close>, \<^verbatim>\<open>length\<close>, \<^verbatim>\<open>aux_data\<close> and \<^verbatim>\<open>header\<close> are \<open>ctype\<close>, \<open>len\<close>,
  \<open>aux\<close> and \<open>hdr\<close>, the fields keeping the source's names.
\<close>

function read_loop :: "bytes \<Rightarrow> nat \<Rightarrow> cas_reader \<Rightarrow> error + cas_reader" where
  "read_loop file_data offset self =
     (if offset < length file_data then
        if offset + 8 > length file_data then Inr self
        else
          let ctype = slice file_data offset (offset + 4) in
          case unpack_H (slice file_data (offset + 4) (offset + 6)) of
            Inl e \<Rightarrow> Inl e
          | Inr len \<Rightarrow>
          case unpack_H (slice file_data (offset + 6) (offset + 8)) of
            Inl e \<Rightarrow> Inl e
          | Inr aux \<Rightarrow>
          let hdr = \<lparr>chunk_type = ctype, length_hdr = len, aux_data = aux\<rparr>;
              offset = offset + 8
          in
          if int offset + len > int (length file_data) then Inr self
          else
            let chunk_data = slice file_data offset (offset + nat len);
                offset = offset + nat len;
                chunk = \<lparr>header = hdr, data = chunk_data\<rparr>;
                self = self\<lparr>chunks := chunks self @ [chunk]\<rparr>;
                self = (if ctype = DATA
                        then self\<lparr>data_blocks := data_blocks self @ [chunk_data]\<rparr>
                        else self)
            in read_loop file_data offset self
      else Inr self)"
  by pat_completeness auto
termination
  by (relation "measure (\<lambda>(file_data, offset, self). length file_data - offset)") auto

definition read :: "bytes \<Rightarrow> cas_reader \<Rightarrow> error + cas_reader" where
  "read file_data self = read_loop file_data 0 self"

text \<open>Decoding a buffer: \<^verbatim>\<open>CASReader(filepath)\<close> followed by \<^verbatim>\<open>read()\<close>.\<close>

definition decode :: "bytes \<Rightarrow> error + cas_reader" where
  "decode file_data = read file_data init"

subsection \<open>Byte-level derivations\<close>

text \<open>\<^verbatim>\<open>to_byte_array\<close>: the loop extends \<open>result\<close> with the payload of each data chunk.\<close>

fun to_byte_array_loop :: "chunk list \<Rightarrow> bytes \<Rightarrow> bytes" where
  "to_byte_array_loop [] result = result"
| "to_byte_array_loop (chunk # rest) result =
     (if chunk_type (header chunk) = DATA
      then to_byte_array_loop rest (result @ data chunk)
      else to_byte_array_loop rest result)"

definition to_byte_array :: "cas_reader \<Rightarrow> bytes" where
  "to_byte_array self = to_byte_array_loop (chunks self) []"

text \<open>
  \<^verbatim>\<open>get_all_chunks_as_bytes\<close>: the type code, the two packed fields and the payload of
  every chunk. A field that \<^verbatim>\<open>struct.pack\<close> rejects ends the method with its exception.
\<close>

fun get_all_chunks_as_bytes_loop :: "chunk list \<Rightarrow> bytes \<Rightarrow> error + bytes" where
  "get_all_chunks_as_bytes_loop [] result = Inr result"
| "get_all_chunks_as_bytes_loop (chunk # rest) result =
     (let result = result @ chunk_type (header chunk) in
      case pack_H (length_hdr (header chunk)) of
        Inl e \<Rightarrow> Inl e
      | Inr packed_length \<Rightarrow>
      let result = result @ packed_length in
      case pack_H (aux_data (header chunk)) of
        Inl e \<Rightarrow> Inl e
      | Inr packed_aux \<Rightarrow>
      let result = result @ packed_aux;
          result = result @ data chunk
      in get_all_chunks_as_bytes_loop rest result)"

definition get_all_chunks_as_bytes :: "cas_reader \<Rightarrow> error + bytes" where
  "get_all_chunks_as_bytes self = get_all_chunks_as_bytes_loop (chunks self) []"

text \<open>\<^verbatim>\<open>get_data_blocks\<close>: a copy of the list that \<open>read\<close> filled.\<close>

definition get_data_blocks :: "cas_reader \<Rightarrow> bytes list" where
  "get_data_blocks self = data_blocks self"


subsection \<open>Text codecs of the standard library\<close>

text \<open>
  \<^verbatim>\<open>bytes.decode(codec, errors=...)\<close> for a single-byte codec: the codec is the table from
  a byte to its code point (\<open>None\<close>: the byte is undecodable), and the error handler
  decides what an undecodable byte does: \<^verbatim>\<open>'strict'\<close> raises, \<^verbatim>\<open>'ignore'\<close> drops the byte,
  \<^verbatim>\<open>'replace'\<close> puts U+FFFD in its place.
\<close>

datatype errors = Strict | Ignore | Replace

definition latin_1 :: "byte \<Rightarrow> nat option" where
  "latin_1 b = Some (unat b)"

definition ascii :: "byte \<Rightarrow> nat option" where
  "ascii b = (if b < 0x80 then Some (unat b) else None)"

fun charmap_decode :: "(byte \<Rightarrow> nat option) \<Rightarrow> errors \<Rightarrow> bytes \<Rightarrow> error + pystr" where
  "charmap_decode codec handler [] = Inr []"
| "charmap_decode codec handler (b # bs) =
     (case codec b of
        Some c \<Rightarrow>
          (case charmap_decode codec handler bs of Inl e \<Rightarrow> Inl e | Inr t \<Rightarrow> Inr (c # t))
      | None \<Rightarrow>
          (case handler of
             Strict \<Rightarrow> Inl UnicodeDecodeError
           | Ignore \<Rightarrow> charmap_decode codec handler bs
           | Replace \<Rightarrow>
               (case charmap_decode codec handler bs of
                  Inl e \<Rightarrow> Inl e
                | Inr t \<Rightarrow> Inr (0xFFFD # t))))"

text \<open>
  \<^verbatim>\<open>bytes.decode('utf-8')\<close> with the default strict handler, on the values of the bytes:
  the well-formed sequences are those of the Unicode standard (no overlong form, no
  surrogate, nothing above U+10FFFF); any other byte raises \<^verbatim>\<open>UnicodeDecodeError\<close>.
\<close>

definition continuation :: "nat \<Rightarrow> bool" where
  "continuation b \<longleftrightarrow> 0x80 \<le> b \<and> b \<le> 0xBF"

fun utf_8 :: "nat list \<Rightarrow> error + pystr" where
  "utf_8 [] = Inr []"
| "utf_8 (b0 # bs) =
     (if b0 < 0x80 then
        (case utf_8 bs of Inl e \<Rightarrow> Inl e | Inr t \<Rightarrow> Inr (b0 # t))
      else if 0xC2 \<le> b0 \<and> b0 \<le> 0xDF then
        (case bs of
           b1 # r \<Rightarrow>
             if continuation b1 then
               (case utf_8 r of
                  Inl e \<Rightarrow> Inl e
                | Inr t \<Rightarrow> Inr (((b0 - 0xC0) * 64 + (b1 - 0x80)) # t))
             else Inl UnicodeDecodeError
         | _ \<Rightarrow> Inl UnicodeDecodeError)
      else if 0xE0 \<le> b0 \<and> b0 \<le> 0xEF then
        (case bs of
           b1 # b2 # r \<Rightarrow>
             if (if b0 = 0xE0 then 0xA0 else 0x80) \<le> b1 \<and>
                b1 \<le> (if b0 = 0xED then 0x9F else 0xBF) \<and> continuation b2 then
               (case utf_8 r of
                  Inl e \<Rightarrow> Inl e
                | Inr t \<Rightarrow>
                    Inr (((b0 - 0xE0) * 4096 + (b1 - 0x80) * 64 + (b2 - 0x80)) # t))
             else Inl UnicodeDecodeError
         | _ \<Rightarrow> Inl UnicodeDecodeError)
      else if 0xF0 \<le> b0 \<and> b0 \<le> 0xF4 then
        (case bs of
           b1 # b2 # b3 # r \<Rightarrow>
             if (if b0 = 0xF0 then 0x90 else 0x80) \<le> b1 \<and>
                b1 \<le> (if b0 = 0xF4 then 0x8F else 0xBF) \<and>
                continuation b2 \<and> continuation b3 then
               (case utf_8 r of
                  Inl e \<Rightarrow> Inl e
                | Inr t \<Rightarrow>
                    Inr (((b0 - 0xF0) * 262144 + (b1 - 0x80) * 4096 +
                          (b2 - 0x80) * 64 + (b3 - 0x80)) # t))
             else Inl UnicodeDecodeError
         | _ \<Rightarrow> Inl UnicodeDecodeError)
      else Inl UnicodeDecodeError)"

definition decode_utf_8 :: "bytes \<Rightarrow> error + pystr" where
  "decode_utf_8 bs = utf_8 (map unat bs)"

subsection \<open>\<^verbatim>\<open>get_metadata\<close> and \<^verbatim>\<open>get_chunk_info\<close>\<close>

text \<open>The dictionary \<^verbatim>\<open>get_metadata\<close> returns, one field for each of its four keys.\<close>

record metadata =
  description :: "pystr option"
  baudrate :: int
  chunk_count :: int
  data_block_count :: int

text \<open>
  The loop over \<^verbatim>\<open>self.chunks\<close>. The \<^verbatim>\<open>except UnicodeDecodeError\<close> clause is the \<open>Inl\<close>
  branch of the first decoding; any other exception leaves the method.
\<close>

fun get_metadata_loop :: "chunk list \<Rightarrow> metadata \<Rightarrow> error + metadata" where
  "get_metadata_loop [] metadata = Inr metadata"
| "get_metadata_loop (chunk # rest) metadata =
     (if chunk_type (header chunk) = FUJI then
        (case decode_utf_8 (data chunk) of
           Inr text \<Rightarrow> get_metadata_loop rest (metadata\<lparr>description := Some text\<rparr>)
         | Inl UnicodeDecodeError \<Rightarrow>
             (case charmap_decode latin_1 Ignore (data chunk) of
                Inl e \<Rightarrow> Inl e
              | Inr text \<Rightarrow> get_metadata_loop rest (metadata\<lparr>description := Some text\<rparr>))
         | Inl e \<Rightarrow> Inl e)
      else if chunk_type (header chunk) = BAUD then
        (if length (data chunk) \<ge> 2 then
           (case unpack_H (slice (data chunk) 0 2) of
              Inl e \<Rightarrow> Inl e
            | Inr rate \<Rightarrow> get_metadata_loop rest (metadata\<lparr>baudrate := rate\<rparr>))
         else get_metadata_loop rest metadata)
      else get_metadata_loop rest metadata)"

definition get_metadata :: "cas_reader \<Rightarrow> error + metadata" where
  "get_metadata self =
     get_metadata_loop (chunks self)
       \<lparr>description = None, baudrate = 600,
        chunk_count = int (length (chunks self)),
        data_block_count = int (length (data_blocks self))\<rparr>"

text \<open>One dictionary of \<^verbatim>\<open>get_chunk_info\<close>; the keys \<^verbatim>\<open>index\<close>, \<^verbatim>\<open>type\<close>, \<^verbatim>\<open>length\<close>, \<^verbatim>\<open>aux_data\<close>.\<close>

record chunk_info =
  index_info :: int
  type_info :: pystr
  length_info :: int
  aux_data_info :: int

fun get_chunk_info_loop :: "chunk list \<Rightarrow> int \<Rightarrow> chunk_info list \<Rightarrow> error + chunk_info list" where
  "get_chunk_info_loop [] i info = Inr info"
| "get_chunk_info_loop (chunk # rest) i info =
     (case charmap_decode ascii Ignore (chunk_type (header chunk)) of
        Inl e \<Rightarrow> Inl e
      | Inr type_text \<Rightarrow>
          get_chunk_info_loop rest (i + 1)
            (info @ [\<lparr>index_info = i, type_info = type_text,
                      length_info = length_hdr (header chunk),
                      aux_data_info = aux_data (header chunk)\<rparr>]))"

definition get_chunk_info :: "cas_reader \<Rightarrow> error + chunk_info list" where
  "get_chunk_info self = get_chunk_info_loop (chunks self) 0 []"


subsection \<open>String formatting of the standard library\<close>

text \<open>
  The default of \<^verbatim>\<open>sys.get_int_max_str_digits()\<close>: a conversion between an integer and
  its decimal text raises \<^verbatim>\<open>ValueError\<close> when more digits than this are involved.
\<close>

definition int_max_str_digits :: nat where
  "int_max_str_digits = 4300"

text \<open>
  \<^verbatim>\<open>str(n)\<close> for an integer, which is also what \<^verbatim>\<open>{n}\<close> in an f-string gives: decimal
  digits, with a minus sign below zero, and \<^verbatim>\<open>ValueError\<close> for more digits than the limit.
\<close>

fun dec_digits :: "nat \<Rightarrow> string" where
  "dec_digits n =
     (if n < 10 then [''0123456789'' ! n]
      else dec_digits (n div 10) @ [''0123456789'' ! (n mod 10)])"

definition str_int :: "int \<Rightarrow> error + pystr" where
  "str_int i =
     (if length (dec_digits (nat \<bar>i\<bar>)) > int_max_str_digits then Inl ValueError
      else if i < 0 then Inr (str (CHR ''-'' # dec_digits (nat (- i))))
      else Inr (str (dec_digits (nat i))))"

text \<open>
  The format specifications \<^verbatim>\<open>04x\<close> and \<^verbatim>\<open>02x\<close> applied to a number that is not
  negative: lower-case hexadecimal digits, padded on the left with zeros to the width.
  The limit on the digits does not apply to base 16.
\<close>

fun hex_digits :: "nat \<Rightarrow> string" where
  "hex_digits n =
     (if n < 16 then [''0123456789abcdef'' ! n]
      else hex_digits (n div 16) @ [''0123456789abcdef'' ! (n mod 16)])"

definition format_x :: "nat \<Rightarrow> nat \<Rightarrow> pystr" where
  "format_x width n =
     str (replicate (width - length (hex_digits n)) CHR ''0'' @ hex_digits n)"

text \<open>\<^verbatim>\<open>sep.join(parts)\<close> and \<^verbatim>\<open>s.ljust(width)\<close>.\<close>

fun str_join :: "pystr \<Rightarrow> pystr list \<Rightarrow> pystr" where
  "str_join sep [] = []"
| "str_join sep [x] = x"
| "str_join sep (x # y # ys) = x @ sep @ str_join sep (y # ys)"

definition str_ljust :: "nat \<Rightarrow> pystr \<Rightarrow> pystr" where
  "str_ljust width s = s @ replicate (width - length s) 32"

subsection \<open>\<^verbatim>\<open>dump_chunks\<close>\<close>

text \<open>The text after the offset in one row, as \<^verbatim>\<open>hex_part\<close> and \<^verbatim>\<open>ascii_part\<close> are built.\<close>

definition hex_part :: "bytes \<Rightarrow> pystr" where
  "hex_part line_data =
     str_ljust 48 (str_join (str '' '') (map (\<lambda>b. format_x 2 (unat b)) line_data))"

definition ascii_part :: "bytes \<Rightarrow> pystr" where
  "ascii_part line_data =
     map (\<lambda>b. if 32 \<le> b \<and> b < 127 then unat b else of_char CHR ''.'') line_data"

text \<open>
  The body of the loop over the offsets, after \<^verbatim>\<open>line_data\<close> is sliced: the line it
  appends to \<^verbatim>\<open>output_lines\<close>.
\<close>

definition dump_line :: "nat \<Rightarrow> bytes \<Rightarrow> bool \<Rightarrow> bool \<Rightarrow> pystr" where
  "dump_line offset line_data show_hex show_ascii =
     (let line_parts = [format_x 4 offset @ str '':''];
          line_parts = (if show_hex then line_parts @ [hex_part line_data] else line_parts);
          line_parts = (if show_ascii
                        then (if show_hex then line_parts @ [str ''|''] else line_parts) @
                             [ascii_part line_data]
                        else line_parts)
      in str_join (str '' '') line_parts)"

text \<open>\<^verbatim>\<open>for offset in range(0, len(data), 16)\<close>, from an offset on.\<close>

function dump_rows :: "bytes \<Rightarrow> bool \<Rightarrow> bool \<Rightarrow> nat \<Rightarrow> pystr list \<Rightarrow> pystr list" where
  "dump_rows data_bytes show_hex show_ascii offset output_lines =
     (if offset < length data_bytes
      then let line_data = slice data_bytes offset (offset + 16)
           in dump_rows data_bytes show_hex show_ascii (offset + 16)
                (output_lines @ [dump_line offset line_data show_hex show_ascii])
      else output_lines)"
  by pat_completeness auto
termination
  by (relation "measure (\<lambda>(data_bytes, show_hex, show_ascii, offset, output_lines).
                            length data_bytes - offset)") auto

text \<open>
  One pass of the loop over \<^verbatim>\<open>chunk_indices\<close>: the lines appended for \<open>idx\<close>, none when
  the index is skipped by \<^verbatim>\<open>continue\<close>. The three integers of the header line are
  converted in the order of the f-string.
\<close>

definition dump_chunk ::
  "cas_reader \<Rightarrow> int \<Rightarrow> bool \<Rightarrow> bool \<Rightarrow> pystr list \<Rightarrow> error + pystr list" where
  "dump_chunk self idx show_hex show_ascii output_lines =
     (if idx < 0 \<or> idx \<ge> int (length (chunks self)) then Inr output_lines
      else
        let chunk = chunks self ! nat idx in
        case charmap_decode ascii Replace (chunk_type (header chunk)) of
          Inl e \<Rightarrow> Inl e
        | Inr type_text \<Rightarrow>
        case str_int idx of
          Inl e \<Rightarrow> Inl e
        | Inr idx_text \<Rightarrow>
        case str_int (length_hdr (header chunk)) of
          Inl e \<Rightarrow> Inl e
        | Inr length_text \<Rightarrow>
        case str_int (aux_data (header chunk)) of
          Inl e \<Rightarrow> Inl e
        | Inr aux_text \<Rightarrow>
        let output_lines = output_lines @
              [str ''Chunk ['' @ idx_text @ str ''] Type: '' @ type_text @
               str '', Length: '' @ length_text @ str '', Aux: '' @ aux_text];
            output_lines = output_lines @ [replicate 80 (of_char CHR ''-'')];
            data_bytes = data chunk;
            output_lines =
              (if length data_bytes = 0 then output_lines @ [str ''  (empty)'']
               else dump_rows data_bytes show_hex show_ascii 0 output_lines)
        in Inr (output_lines @ [[]]))"

fun dump_loop ::
  "cas_reader \<Rightarrow> int list \<Rightarrow> bool \<Rightarrow> bool \<Rightarrow> pystr list \<Rightarrow> error + pystr list" where
  "dump_loop self [] show_hex show_ascii output_lines = Inr output_lines"
| "dump_loop self (idx # rest) show_hex show_ascii output_lines =
     (case dump_chunk self idx show_hex show_ascii output_lines of
        Inl e \<Rightarrow> Inl e
      | Inr output_lines \<Rightarrow> dump_loop self rest show_hex show_ascii output_lines)"

text \<open>\<^verbatim>\<open>output_lines\<close> as it stands before the final \<^verbatim>\<open>join\<close>.\<close>

definition dump_output_lines ::
  "cas_reader \<Rightarrow> int list option \<Rightarrow> bool \<Rightarrow> bool \<Rightarrow> error + pystr list" where
  "dump_output_lines self chunk_indices show_hex show_ascii =
     (let chunk_indices =
            (case chunk_indices of
               None \<Rightarrow> map int [0..<length (chunks self)]
             | Some l \<Rightarrow> l)
      in dump_loop self chunk_indices show_hex show_ascii [])"

definition dump_chunks ::
  "cas_reader \<Rightarrow> int list option \<Rightarrow> bool \<Rightarrow> bool \<Rightarrow> error + pystr" where
  "dump_chunks self chunk_indices show_hex show_ascii =
     (case dump_output_lines self chunk_indices show_hex show_ascii of
        Inl e \<Rightarrow> Inl e
      | Inr output_lines \<Rightarrow> Inr (str_join [10] output_lines))"

subsection \<open>\<^verbatim>\<open>parse_chunk_selection\<close>\<close>

text \<open>
  The specification is a \<open>string\<close>: a Python \<^verbatim>\<open>str\<close> whose code points are below 256.
  \<^verbatim>\<open>str.strip()\<close> removes the white space of \<^verbatim>\<open>str.isspace\<close> at both ends.
\<close>

definition is_space :: "char \<Rightarrow> bool" where
  "is_space c \<longleftrightarrow>
     (let n = (of_char c :: nat)
      in (9 \<le> n \<and> n \<le> 13) \<or> (28 \<le> n \<and> n \<le> 32) \<or> n = 0x85 \<or> n = 0xA0)"

definition str_strip :: "string \<Rightarrow> string" where
  "str_strip s = rev (dropWhile is_space (rev (dropWhile is_space s)))"

text \<open>\<^verbatim>\<open>s.split(sep)\<close> for a separator of one character: never an empty list.\<close>

fun str_split :: "char \<Rightarrow> string \<Rightarrow> string list" where
  "str_split sep [] = [[]]"
| "str_split sep (c # cs) =
     (if c = sep then [] # str_split sep cs
      else (case str_split sep cs of
              p # ps \<Rightarrow> (c # p) # ps
            | [] \<Rightarrow> [[c]]))"

text \<open>
  \<^verbatim>\<open>s.split(sep, 1)\<close> for a string that contains the separator: the two sides of its
  first occurrence.
\<close>

definition str_split_once :: "char \<Rightarrow> string \<Rightarrow> string \<times> string" where
  "str_split_once sep s = (takeWhile (\<lambda>c. c \<noteq> sep) s, tl (dropWhile (\<lambda>c. c \<noteq> sep) s))"

text \<open>
  \<^verbatim>\<open>int(s)\<close> for a string: white space at both ends (here the characters 9 to 13, 32,
  0x85 and 0xA0), an optional sign, then decimal digits, where single underscores may
  stand between digits. Anything else raises \<^verbatim>\<open>ValueError\<close>, and so does a text with
  more digits than the limit, leading zeros counted, underscores not.
\<close>

definition is_int_space :: "char \<Rightarrow> bool" where
  "is_int_space c \<longleftrightarrow>
     (let n = (of_char c :: nat)
      in (9 \<le> n \<and> n \<le> 13) \<or> n = 32 \<or> n = 0x85 \<or> n = 0xA0)"

definition is_digit :: "char \<Rightarrow> bool" where
  "is_digit c \<longleftrightarrow> (48 :: nat) \<le> of_char c \<and> (of_char c :: nat) \<le> 57"

definition digit_value :: "char \<Rightarrow> nat" where
  "digit_value c = of_char c - 48"

fun int_digits :: "nat \<Rightarrow> string \<Rightarrow> nat option" where
  "int_digits acc [] = Some acc"
| "int_digits acc (c # cs) =
     (if is_digit c then int_digits (10 * acc + digit_value c) cs
      else if c = CHR ''_'' then
        (case cs of
           d # ds \<Rightarrow> if is_digit d then int_digits (10 * acc + digit_value d) ds else None
         | [] \<Rightarrow> None)
      else None)"

definition int_unsigned :: "string \<Rightarrow> nat option" where
  "int_unsigned s =
     (case s of
        d # ds \<Rightarrow> if is_digit d then int_digits (digit_value d) ds else None
      | [] \<Rightarrow> None)"

definition py_int :: "string \<Rightarrow> error + int" where
  "py_int s =
     (let t = rev (dropWhile is_int_space (rev (dropWhile is_int_space s)));
          negative = (t \<noteq> [] \<and> hd t = CHR ''-'');
          body = (if t \<noteq> [] \<and> (hd t = CHR ''-'' \<or> hd t = CHR ''+'') then tl t else t)
      in if length (filter is_digit body) > int_max_str_digits then Inl ValueError
         else case int_unsigned body of
                None \<Rightarrow> Inl ValueError
              | Some n \<Rightarrow> Inr (if negative then - int n else int n))"

text \<open>
  The loop over \<^verbatim>\<open>parts\<close>, with the set \<^verbatim>\<open>indices\<close>. The inner loop over
  \<^verbatim>\<open>range(start_idx, end_idx + 1)\<close> is the \<open>fold\<close>.
\<close>

fun parts_loop :: "string list \<Rightarrow> int \<Rightarrow> int set \<Rightarrow> error + int set" where
  "parts_loop [] max_chunks indices = Inr indices"
| "parts_loop (part # rest) max_chunks indices =
     (let part = str_strip part in
      if CHR ''-'' \<in> set part then
        (case str_split_once CHR ''-'' part of
           (start, stop) \<Rightarrow>
             (case py_int (str_strip start) of
                Inl e \<Rightarrow> Inl e
              | Inr start_idx \<Rightarrow>
             (case py_int (str_strip stop) of
                Inl e \<Rightarrow> Inl e
              | Inr end_idx \<Rightarrow>
                  parts_loop rest max_chunks
                    (fold (\<lambda>i indices. if 0 \<le> i \<and> i < max_chunks then insert i indices
                                       else indices)
                       [start_idx..end_idx] indices))))
      else
        (case py_int part of
           Inl e \<Rightarrow> Inl e
         | Inr idx \<Rightarrow>
             parts_loop rest max_chunks
               (if 0 \<le> idx \<and> idx < max_chunks then insert idx indices else indices)))"

definition parse_chunk_selection :: "string \<Rightarrow> int \<Rightarrow> error + int list" where
  "parse_chunk_selection chunk_spec max_chunks =
     (if chunk_spec = [] then Inr [0..max_chunks - 1]
      else
        (case parts_loop (str_split CHR '','' chunk_spec) max_chunks {} of
           Inl e \<Rightarrow> Inl e
         | Inr indices \<Rightarrow> Inr (sorted_list_of_set indices)))"


section \<open>Notions for the statements and the proofs\<close>

text \<open>
  The unsigned 16-bit little-endian value at position \<open>i\<close> of a buffer, the chunk that
  one pass of the loop of \<open>read\<close> builds at an offset, and the state after the pass:
  names for what the loop computes, used to state its unfolding.
\<close>

definition le16 :: "bytes \<Rightarrow> nat \<Rightarrow> int" where
  "le16 fd i = uint (fd ! i) + 256 * uint (fd ! Suc i)"

definition chunk_at :: "bytes \<Rightarrow> nat \<Rightarrow> chunk" where
  "chunk_at fd off =
     \<lparr>header = \<lparr>chunk_type = slice fd off (off + 4), length_hdr = le16 fd (off + 4),
                aux_data = le16 fd (off + 6)\<rparr>,
      data = slice fd (off + 8) (off + 8 + nat (le16 fd (off + 4)))\<rparr>"

definition append_chunk :: "cas_reader \<Rightarrow> chunk \<Rightarrow> cas_reader" where
  "append_chunk self c =
     self\<lparr>chunks := chunks self @ [c],
          data_blocks := (if chunk_type (header c) = DATA then data_blocks self @ [data c]
                          else data_blocks self)\<rparr>"

text \<open>
  The format of section 6 of the specification: a chunk is its 4-byte type code, its
  length and its auxiliary value as two little-endian bytes each, then its payload; a
  stream is the chunks one after the other. A chunk is well formed when its fields fit
  that format and its payload has the declared length.
\<close>

definition enc16 :: "int \<Rightarrow> bytes" where
  "enc16 n = [word_of_int (n mod 256), word_of_int (n div 256)]"

definition chunk_bytes :: "chunk \<Rightarrow> bytes" where
  "chunk_bytes c = chunk_type (header c) @ enc16 (length_hdr (header c)) @
                   enc16 (aux_data (header c)) @ data c"

definition wire :: "chunk list \<Rightarrow> bytes" where
  "wire cs = concat (map chunk_bytes cs)"

definition wf_chunk :: "chunk \<Rightarrow> bool" where
  "wf_chunk c \<longleftrightarrow>
     length (chunk_type (header c)) = 4 \<and>
     0 \<le> length_hdr (header c) \<and> length_hdr (header c) \<le> 65535 \<and>
     0 \<le> aux_data (header c) \<and> aux_data (header c) \<le> 65535 \<and>
     int (length (data c)) = length_hdr (header c)"

text \<open>
  Truncation, in the words of the specification: fewer than 8 bytes remain, or the
  declared payload length exceeds the bytes that remain after the header.
\<close>

definition truncated :: "bytes \<Rightarrow> bool" where
  "truncated t \<longleftrightarrow> length t < 8 \<or> int (length t) - 8 < le16 t 4"

subsection \<open>Example inputs\<close>

text \<open>
  A stream of one data chunk with a payload of two bytes, the reader it decodes to, and
  two truncated tails: the first two bytes of a header, and a header that declares five
  payload bytes where one is left.
\<close>

definition tape_chunk :: chunk where
  "tape_chunk = \<lparr>header = \<lparr>chunk_type = DATA, length_hdr = 2, aux_data = 0\<rparr>,
                 data = [0xAA, 0xBB]\<rparr>"

definition tape_reader :: cas_reader where
  "tape_reader = \<lparr>chunks = [tape_chunk], data_blocks = [[0xAA, 0xBB]]\<rparr>"

definition tape_wire :: bytes where
  "tape_wire = [0x64, 0x61, 0x74, 0x61, 2, 0, 0, 0, 0xAA, 0xBB]"

definition partial_header :: bytes where
  "partial_header = [0x46, 0x55]"

definition partial_payload :: bytes where
  "partial_payload = [0x64, 0x61, 0x74, 0x61, 5, 0, 0, 0, 0x01]"

subsection \<open>Metadata\<close>

text \<open>
  The text of a description payload: the primary decoding, and when that raises, the
  fall-back, which maps every byte to the code point of its value.
\<close>

definition description_text :: "bytes \<Rightarrow> pystr" where
  "description_text bs = (case decode_utf_8 bs of Inr t \<Rightarrow> t | Inl e \<Rightarrow> map unat bs)"

text \<open>
  The summary in the words of the specification: the first description chunk and the
  first baud-rate chunk decide, and a first baud-rate chunk with a payload of fewer than
  2 bytes leaves the default.
\<close>

definition spec_metadata :: "cas_reader \<Rightarrow> metadata" where
  "spec_metadata self =
     \<lparr>description =
        map_option (\<lambda>c. description_text (data c))
          (find (\<lambda>c. chunk_type (header c) = FUJI) (chunks self)),
      baudrate =
        (case find (\<lambda>c. chunk_type (header c) = BAUD) (chunks self) of
           Some c \<Rightarrow> if 2 \<le> length (data c) then le16 (data c) 0 else 600
         | None \<Rightarrow> 600),
      chunk_count = int (length (chunks self)),
      data_block_count =
        int (length (filter (\<lambda>c. chunk_type (header c) = DATA) (chunks self)))\<rparr>"

text \<open>
  The summary with the last chunk of each kind deciding: the last description chunk, and
  the last baud-rate chunk whose payload has at least 2 bytes.
\<close>

definition last_wins_metadata :: "cas_reader \<Rightarrow> metadata" where
  "last_wins_metadata self =
     \<lparr>description =
        map_option (\<lambda>c. description_text (data c))
          (find (\<lambda>c. chunk_type (header c) = FUJI) (rev (chunks self))),
      baudrate =
        (case find (\<lambda>c. chunk_type (header c) = BAUD \<and> 2 \<le> length (data c))
                (rev (chunks self)) of
           Some c \<Rightarrow> le16 (data c) 0
         | None \<Rightarrow> 600),
      chunk_count = int (length (chunks self)),
      data_block_count =
        int (length (filter (\<lambda>c. chunk_type (header c) = DATA) (chunks self)))\<rparr>"

text \<open>
  A stream of two description chunks, with the payloads \<open>A\<close> and \<open>B\<close>, and two baud-rate
  chunks, with the rates 1200 and 300; and the reader it decodes to.
\<close>

definition two_of_each :: bytes where
  "two_of_each =
     [0x46, 0x55, 0x4A, 0x49, 1, 0, 0, 0, 0x41,
      0x46, 0x55, 0x4A, 0x49, 1, 0, 0, 0, 0x42,
      0x62, 0x61, 0x75, 0x64, 2, 0, 0, 0, 0xB0, 0x04,
      0x62, 0x61, 0x75, 0x64, 2, 0, 0, 0, 0x2C, 0x01]"

definition two_of_each_reader :: cas_reader where
  "two_of_each_reader =
     \<lparr>chunks = [\<lparr>header = \<lparr>chunk_type = FUJI, length_hdr = 1, aux_data = 0\<rparr>, data = [0x41]\<rparr>,
                \<lparr>header = \<lparr>chunk_type = FUJI, length_hdr = 1, aux_data = 0\<rparr>, data = [0x42]\<rparr>,
                \<lparr>header = \<lparr>chunk_type = BAUD, length_hdr = 2, aux_data = 0\<rparr>,
                 data = [0xB0, 0x04]\<rparr>,
                \<lparr>header = \<lparr>chunk_type = BAUD, length_hdr = 2, aux_data = 0\<rparr>,
                 data = [0x2C, 0x01]\<rparr>],
      data_blocks = []\<rparr>"

text \<open>The effect of one pass of the loop of \<open>get_metadata\<close> on the dictionary.\<close>

definition metadata_step :: "chunk \<Rightarrow> metadata \<Rightarrow> metadata" where
  "metadata_step c m =
     (if chunk_type (header c) = FUJI then m\<lparr>description := Some (description_text (data c))\<rparr>
      else if chunk_type (header c) = BAUD \<and> 2 \<le> length (data c)
      then m\<lparr>baudrate := le16 (data c) 0\<rparr>
      else m)"

subsection \<open>Chunk summaries\<close>

text \<open>
  The rendering of a type code that the specification words: a byte in the printable
  range as its character, any other byte as a placeholder.
\<close>

definition spec_type_text :: "nat \<Rightarrow> bytes \<Rightarrow> pystr" where
  "spec_type_text placeholder bs =
     map (\<lambda>b. if 0x20 \<le> b \<and> b \<le> 0x7E then unat b else placeholder) bs"

text \<open>
  A stream of one chunk whose type code holds the byte 0xFF and a line feed, and the
  reader it decodes to.
\<close>

definition odd_type :: bytes where
  "odd_type = [0x64, 0x61, 0xFF, 0x0A, 0, 0, 0, 0]"

definition odd_type_reader :: cas_reader where
  "odd_type_reader =
     \<lparr>chunks = [\<lparr>header = \<lparr>chunk_type = [0x64, 0x61, 0xFF, 0x0A], length_hdr = 0,
                           aux_data = 0\<rparr>, data = []\<rparr>],
      data_blocks = []\<rparr>"

subsection \<open>Dumps\<close>

text \<open>
  The header line of a chunk's section, and the section that one pass of the loop of
  \<open>dump_chunks\<close> appends for an index: nothing for an index out of range, else the header
  line, the rule of 80 dashes, the rows or the marker of an empty payload, and a blank line.
  Both raise when one of the integers of the header line has too many digits.
\<close>

definition header_line :: "int \<Rightarrow> chunk \<Rightarrow> error + pystr" where
  "header_line idx c =
     (case (str_int idx, str_int (length_hdr (header c)), str_int (aux_data (header c))) of
        (Inr idx_text, Inr length_text, Inr aux_text) \<Rightarrow>
          Inr (str ''Chunk ['' @ idx_text @ str ''] Type: '' @
               map (\<lambda>b. if b < 0x80 then unat b else 0xFFFD) (chunk_type (header c)) @
               str '', Length: '' @ length_text @ str '', Aux: '' @ aux_text)
      | _ \<Rightarrow> Inl ValueError)"

definition chunk_section :: "cas_reader \<Rightarrow> int \<Rightarrow> bool \<Rightarrow> bool \<Rightarrow> error + pystr list" where
  "chunk_section self idx show_hex show_ascii =
     (if idx < 0 \<or> int (length (chunks self)) \<le> idx then Inr []
      else case header_line idx (chunks self ! nat idx) of
             Inl e \<Rightarrow> Inl e
           | Inr h \<Rightarrow>
               Inr ([h, replicate 80 (of_char CHR ''-'')] @
                    (if data (chunks self ! nat idx) = [] then [str ''  (empty)'']
                     else dump_rows (data (chunks self ! nat idx)) show_hex show_ascii 0 []) @
                    [[]]))"

text \<open>
  A reader of three chunks for the dumps: an empty description, a data chunk of 16
  bytes (the letters A to P) and a data chunk of 17 bytes (the same, then 0x7F).
\<close>

definition payload16 :: bytes where
  "payload16 = [0x41, 0x42, 0x43, 0x44, 0x45, 0x46, 0x47, 0x48,
                0x49, 0x4A, 0x4B, 0x4C, 0x4D, 0x4E, 0x4F, 0x50]"

definition empty_chunk :: chunk where
  "empty_chunk = \<lparr>header = \<lparr>chunk_type = FUJI, length_hdr = 0, aux_data = 0\<rparr>, data = []\<rparr>"

definition chunk16 :: chunk where
  "chunk16 = \<lparr>header = \<lparr>chunk_type = DATA, length_hdr = 16, aux_data = 0\<rparr>, data = payload16\<rparr>"

definition chunk17 :: chunk where
  "chunk17 = \<lparr>header = \<lparr>chunk_type = DATA, length_hdr = 17, aux_data = 0\<rparr>,
              data = payload16 @ [0x7F]\<rparr>"

definition dump_reader :: cas_reader where
  "dump_reader =
     \<lparr>chunks = [empty_chunk, chunk16, chunk17],
      data_blocks = [payload16, payload16 @ [0x7F]]\<rparr>"

text \<open>
  The texts that \<open>dump_chunks\<close> gives for each of the three chunks of that reader when
  the chunk is selected alone and both columns are shown.
\<close>

definition dump_text0 :: pystr where
  "dump_text0 =
     str ''Chunk [0] Type: FUJI, Length: 0, Aux: 0'' @ [10] @
     str ''--------------------------------------------------------------------------------'' @ [10] @
     str ''  (empty)'' @ [10]"

definition dump_text1 :: pystr where
  "dump_text1 =
     str ''Chunk [1] Type: data, Length: 16, Aux: 0'' @ [10] @
     str ''--------------------------------------------------------------------------------'' @ [10] @
     str ''0000: 41 42 43 44 45 46 47 48 49 4a 4b 4c 4d 4e 4f 50  | ABCDEFGHIJKLMNOP'' @ [10]"

definition dump_text2 :: pystr where
  "dump_text2 =
     str ''Chunk [2] Type: data, Length: 17, Aux: 0'' @ [10] @
     str ''--------------------------------------------------------------------------------'' @ [10] @
     str ''0000: 41 42 43 44 45 46 47 48 49 4a 4b 4c 4d 4e 4f 50  | ABCDEFGHIJKLMNOP'' @ [10] @
     str ''0010: 7f                                               | .'' @ [10]"

subsection \<open>Selection specifications\<close>

text \<open>
  A selection in the words of the specification: comma-separated parts, each a single
  non-negative integer or an inclusive range \<open>start-end\<close>, written in decimal; and the
  indices a part refers to.
\<close>

datatype selection_item = Index nat | Span nat nat

fun render_item :: "selection_item \<Rightarrow> string" where
  "render_item (Index n) = dec_digits n"
| "render_item (Span a b) = dec_digits a @ CHR ''-'' # dec_digits b"

fun render_spec :: "selection_item list \<Rightarrow> string" where
  "render_spec [] = []"
| "render_spec [item] = render_item item"
| "render_spec (item # item' # items) =
     render_item item @ CHR '','' # render_spec (item' # items)"

fun item_indices :: "selection_item \<Rightarrow> int set" where
  "item_indices (Index n) = {int n}"
| "item_indices (Span a b) = {int a..int b}"

text \<open>
  The bounds that a part of any text stands for, read with \<open>int\<close> as the code reads it:
  \<open>None\<close> when the part is neither an integer nor two integers around a hyphen.
\<close>

definition part_range :: "string \<Rightarrow> (int \<times> int) option" where
  "part_range part =
     (let part = str_strip part in
      if CHR ''-'' \<in> set part then
        (case (py_int (str_strip (fst (str_split_once CHR ''-'' part))),
               py_int (str_strip (snd (str_split_once CHR ''-'' part)))) of
           (Inr a, Inr b) \<Rightarrow> Some (a, b)
         | _ \<Rightarrow> None)
      else (case py_int part of Inr n \<Rightarrow> Some (n, n) | Inl e \<Rightarrow> None))"

text \<open>
  The numbers of a selection that the conversions accept: those of at most
  \<open>int_max_str_digits\<close> decimal digits.
\<close>

fun item_below_limit :: "selection_item \<Rightarrow> bool" where
  "item_below_limit (Index n) \<longleftrightarrow> n < 10 ^ int_max_str_digits"
| "item_below_limit (Span a b) \<longleftrightarrow> a < 10 ^ int_max_str_digits \<and> b < 10 ^ int_max_str_digits"

section \<open>The decoder\<close>

declare read_loop.simps [simp del]

lemma slice_two: "i + 2 \<le> length fd \<Longrightarrow> j = i + 2 \<Longrightarrow> slice fd i j = [fd ! i, fd ! Suc i]"
proof -
  assume a: "i + 2 \<le> length fd" and j: "j = i + 2"
  have "drop i fd = fd ! i # drop (Suc i) fd" using a by (simp add: Cons_nth_drop_Suc)
  moreover have "drop (Suc i) fd = fd ! Suc i # drop (Suc (Suc i)) fd"
    using a by (simp add: Cons_nth_drop_Suc)
  ultimately show ?thesis using j by (simp add: slice_def numeral_2_eq_2)
qed

lemma unpack_H_slice:
  "i + 2 \<le> length fd \<Longrightarrow> j = i + 2 \<Longrightarrow> unpack_H (slice fd i j) = Inr (le16 fd i)"
  by (simp add: slice_two le16_def)

lemma le16_bounds: "0 \<le> le16 fd i" "le16 fd i \<le> 65535"
proof -
  have a: "uint (fd ! i) < 256" using uint_lt2p[of "fd ! i"] by simp
  have b: "uint (fd ! Suc i) < 256" using uint_lt2p[of "fd ! Suc i"] by simp
  show "0 \<le> le16 fd i" by (simp add: le16_def)
  show "le16 fd i \<le> 65535" using a b by (simp add: le16_def)
qed

lemma read_loop_unfold:
  "read_loop fd off self =
     (if off + 8 \<le> length fd \<and> off + 8 + nat (le16 fd (off + 4)) \<le> length fd
      then read_loop fd (off + 8 + nat (le16 fd (off + 4))) (append_chunk self (chunk_at fd off))
      else Inr self)"
  apply (subst read_loop.simps)
  using le16_bounds(1)[of fd "off + 4"]
  apply (auto simp add: Let_def unpack_H_slice chunk_at_def append_chunk_def)
  done

lemma read_loop_stop:
  "\<not> (off + 8 \<le> length fd \<and> off + 8 + nat (le16 fd (off + 4)) \<le> length fd) \<Longrightarrow>
     read_loop fd off self = Inr self"
  by (subst read_loop_unfold) (simp only: if_False)

lemma read_loop_step:
  "off + 8 \<le> length fd \<and> off + 8 + nat (le16 fd (off + 4)) \<le> length fd \<Longrightarrow>
     read_loop fd off self =
     read_loop fd (off + 8 + nat (le16 fd (off + 4))) (append_chunk self (chunk_at fd off))"
  by (subst read_loop_unfold) simp

lemma uint_byte_lt: "uint (b :: byte) < 256"
  using uint_lt2p[of b] by simp

lemma enc16_le16: "enc16 (le16 fd i) = [fd ! i, fd ! Suc i]"
proof -
  have a: "uint (fd ! i) < 256" by (rule uint_byte_lt)
  have "(uint (fd ! i) + 256 * uint (fd ! Suc i)) mod 256 = uint (fd ! i)"
    using a by simp
  moreover have "(uint (fd ! i) + 256 * uint (fd ! Suc i)) div 256 = uint (fd ! Suc i)"
    using a by simp
  ultimately show ?thesis by (simp add: enc16_def le16_def)
qed

lemma le16_enc16:
  assumes "0 \<le> n" "n \<le> 65535" "fd ! i = word_of_int (n mod 256)"
    "fd ! Suc i = word_of_int (n div 256)"
  shows "le16 fd i = n"
proof -
  have "uint (word_of_int (n mod 256) :: byte) = n mod 256"
    by (simp add: uint_word_of_int take_bit_eq_mod)
  moreover have "n div 256 < 256" using assms by simp
  then have "uint (word_of_int (n div 256) :: byte) = n div 256"
    using assms(1) by (simp add: uint_word_of_int take_bit_eq_mod)
  ultimately show ?thesis using assms by (simp add: le16_def)
qed

lemma drop_slice: "i \<le> j \<Longrightarrow> j \<le> length xs \<Longrightarrow> drop i xs = slice xs i j @ drop j xs"
proof -
  assume a: "i \<le> j" "j \<le> length xs"
  have d: "drop (j - i) (drop i xs) = drop j xs" using a by simp
  show ?thesis unfolding slice_def d[symmetric] by (rule append_take_drop_id[symmetric])
qed

lemma length_slice: "j \<le> length xs \<Longrightarrow> length (slice xs i j) = j - i"
  by (simp add: slice_def)

lemma wf_chunk_at:
  assumes "off + 8 + nat (le16 fd (off + 4)) \<le> length fd"
  shows "wf_chunk (chunk_at fd off)"
  using assms le16_bounds[of fd "off + 4"] le16_bounds[of fd "off + 6"]
  by (simp add: wf_chunk_def chunk_at_def length_slice)

lemma drop_chunk_at:
  assumes "off + 8 + nat (le16 fd (off + 4)) \<le> length fd"
  shows "drop off fd = chunk_bytes (chunk_at fd off) @ drop (off + 8 + nat (le16 fd (off + 4))) fd"
proof -
  let ?n = "nat (le16 fd (off + 4))"
  have 1: "drop off fd = slice fd off (off + 4) @ drop (off + 4) fd"
    using assms by (intro drop_slice) simp_all
  have 2: "drop (off + 4) fd = slice fd (off + 4) (off + 6) @ drop (off + 6) fd"
    using assms by (intro drop_slice) simp_all
  have 3: "drop (off + 6) fd = slice fd (off + 6) (off + 8) @ drop (off + 8) fd"
    using assms by (intro drop_slice) simp_all
  have 4: "drop (off + 8) fd = slice fd (off + 8) (off + 8 + ?n) @ drop (off + 8 + ?n) fd"
    using assms by (intro drop_slice) simp_all
  have 5: "slice fd (off + 4) (off + 6) = enc16 (le16 fd (off + 4))"
    using assms by (simp add: slice_two enc16_le16)
  have 6: "slice fd (off + 6) (off + 8) = enc16 (le16 fd (off + 6))"
    using assms by (simp add: slice_two enc16_le16)
  show ?thesis
    unfolding chunk_bytes_def chunk_at_def
    by (simp add: 1 2 3 4 5 6)
qed

lemma chunks_foldl_append_chunk: "chunks (foldl append_chunk self cs) = chunks self @ cs"
  by (induction cs arbitrary: self) (simp_all add: append_chunk_def)

lemma data_blocks_foldl_append_chunk:
  "data_blocks (foldl append_chunk self cs) =
     data_blocks self @ map data (filter (\<lambda>c. chunk_type (header c) = DATA) cs)"
  by (induction cs arbitrary: self) (simp_all add: append_chunk_def)

lemma read_loop_wire:
  "\<exists>cs t. read_loop fd off self = Inr (foldl append_chunk self cs) \<and>
          (\<forall>c\<in>set cs. wf_chunk c) \<and>
          (off \<le> length fd \<longrightarrow> drop off fd = wire cs @ t \<and> truncated t)"
proof (induction "length fd - off" arbitrary: off self rule: less_induct)
  case less
  let ?n = "nat (le16 fd (off + 4))"
  show ?case
  proof (cases "off + 8 \<le> length fd \<and> off + 8 + ?n \<le> length fd")
    case True
    let ?c = "chunk_at fd off"
    from True have lt: "length fd - (off + 8 + ?n) < length fd - off" by arith
    from less[OF lt, of "append_chunk self ?c"] obtain cs t where
      r: "read_loop fd (off + 8 + ?n) (append_chunk self ?c) =
            Inr (foldl append_chunk (append_chunk self ?c) cs)"
      and w: "\<forall>c\<in>set cs. wf_chunk c"
      and d: "drop (off + 8 + ?n) fd = wire cs @ t" and t: "truncated t"
      using True by auto
    have "read_loop fd off self = Inr (foldl append_chunk self (?c # cs))"
      using r by (simp add: read_loop_step[OF True])
    moreover have "\<forall>c\<in>set (?c # cs). wf_chunk c"
      using w wf_chunk_at[of off fd] True by simp
    moreover have "drop off fd = wire (?c # cs) @ t"
      using drop_chunk_at[of off fd] True d by (simp add: wire_def)
    ultimately show ?thesis using t by blast
  next
    case False
    have r: "read_loop fd off self = Inr (foldl append_chunk self [])"
      by (simp add: read_loop_stop[OF False])
    have "off \<le> length fd \<Longrightarrow> truncated (drop off fd)"
    proof -
      assume le: "off \<le> length fd"
      show "truncated (drop off fd)"
      proof (cases "off + 8 \<le> length fd")
        case True
        then have "\<not> off + 8 + ?n \<le> length fd" using False by simp
        moreover have "le16 (drop off fd) 4 = le16 fd (off + 4)"
          using True by (simp add: le16_def add.commute)
        ultimately show ?thesis using True le16_bounds(1)[of fd "off + 4"]
          by (simp add: truncated_def) arith
      next
        case False
        then have "length (drop off fd) < 8" by simp
        then show ?thesis unfolding truncated_def by (rule disjI1)
      qed
    qed
    then have "off \<le> length fd \<longrightarrow> drop off fd = wire [] @ drop off fd \<and> truncated (drop off fd)"
      by (simp add: wire_def)
    with r show ?thesis by (metis empty_iff list.set(1))
  qed
qed

lemma read_loop_of_wire:
  "\<forall>c\<in>set cs. wf_chunk c \<Longrightarrow> truncated t \<Longrightarrow>
     read_loop (pre @ wire cs @ t) (length pre) self = Inr (foldl append_chunk self cs)"
proof (induction cs arbitrary: pre self)
  case Nil
  let ?fd = "pre @ t"
  have "\<not> (length pre + 8 \<le> length ?fd \<and>
           length pre + 8 + nat (le16 ?fd (length pre + 4)) \<le> length ?fd)"
  proof (cases "length t < 8")
    case True
    then show ?thesis by simp
  next
    case False
    then have "int (length t) - 8 < le16 t 4" using Nil by (simp add: truncated_def)
    moreover have "le16 ?fd (length pre + 4) = le16 t 4"
      by (simp add: le16_def nth_append)
    ultimately show ?thesis by (simp add: not_le) arith
  qed
  then show ?case by (simp add: read_loop_stop wire_def)
next
  case (Cons c cs)
  let ?fd = "pre @ wire (c # cs) @ t"
  let ?off = "length pre"
  from Cons.prems have wf: "wf_chunk c" by simp
  have fd: "?fd = (pre @ chunk_bytes c) @ wire cs @ t" by (simp add: wire_def)
  have dl: "length (data c) = nat (length_hdr (header c))"
    using wf by (simp add: wf_chunk_def) (metis nat_int)
  have lb: "length (chunk_bytes c) = 8 + nat (length_hdr (header c))"
    using wf dl by (simp add: chunk_bytes_def wf_chunk_def enc16_def)
  have len: "le16 ?fd (?off + 4) = length_hdr (header c)"
    using wf by (intro le16_enc16) (simp_all add: wire_def chunk_bytes_def wf_chunk_def enc16_def nth_append)
  have aux: "le16 ?fd (?off + 6) = aux_data (header c)"
    using wf by (intro le16_enc16) (simp_all add: wire_def chunk_bytes_def wf_chunk_def enc16_def nth_append)
  have ty: "slice ?fd ?off (?off + 4) = chunk_type (header c)"
    using wf by (simp add: slice_def wire_def chunk_bytes_def wf_chunk_def)
  have da: "slice ?fd (?off + 8) (?off + 8 + nat (length_hdr (header c))) = data c"
    using wf dl by (simp add: slice_def wire_def chunk_bytes_def wf_chunk_def enc16_def)
  have c: "chunk_at ?fd ?off = c"
    by (simp only: chunk_at_def len aux ty da) simp
  have "read_loop ?fd ?off self =
          read_loop ?fd (?off + 8 + nat (length_hdr (header c))) (append_chunk self c)"
  proof -
    have "?off + 8 \<le> length ?fd \<and> ?off + 8 + nat (le16 ?fd (?off + 4)) \<le> length ?fd"
      using lb by (simp only: len) (simp add: wire_def)
    from read_loop_step[OF this] show ?thesis by (simp only: len c)
  qed
  also have "\<dots> = read_loop ((pre @ chunk_bytes c) @ wire cs @ t) (length (pre @ chunk_bytes c))
                     (append_chunk self c)"
    using lb by (simp only: fd) (simp add: add.assoc)
  also have "\<dots> = Inr (foldl append_chunk (append_chunk self c) cs)"
    using Cons.prems by (intro Cons.IH) simp_all
  finally show ?case by simp
qed

lemma pack_H_enc16: "0 \<le> n \<Longrightarrow> n \<le> 65535 \<Longrightarrow> pack_H n = Inr (enc16 n)"
  by (simp add: pack_H_def enc16_def)

lemma get_all_chunks_as_bytes_loop_wire:
  "\<forall>c\<in>set cs. wf_chunk c \<Longrightarrow> get_all_chunks_as_bytes_loop cs r = Inr (r @ wire cs)"
proof (induction cs arbitrary: r)
  case Nil
  show ?case by (simp add: wire_def)
next
  case (Cons c cs)
  then have wf: "wf_chunk c" and rest: "\<forall>c\<in>set cs. wf_chunk c" by simp_all
  have l: "pack_H (length_hdr (header c)) = Inr (enc16 (length_hdr (header c)))"
    using wf by (simp add: pack_H_enc16 wf_chunk_def)
  have a: "pack_H (aux_data (header c)) = Inr (enc16 (aux_data (header c)))"
    using wf by (simp add: pack_H_enc16 wf_chunk_def)
  show ?case
    by (simp add: l a Cons.IH[OF rest] wire_def chunk_bytes_def)
qed

lemma get_all_chunks_as_bytes_loop_Inr:
  "get_all_chunks_as_bytes_loop cs r = Inr bs \<Longrightarrow>
   \<forall>c\<in>set cs. length (chunk_type (header c)) = 4 \<and> int (length (data c)) = length_hdr (header c) \<Longrightarrow>
   \<forall>c\<in>set cs. wf_chunk c"
proof (induction cs arbitrary: r)
  case Nil
  show ?case by simp
next
  case (Cons c cs)
  from Cons.prems(1) obtain r' where
    p: "pack_H (length_hdr (header c)) \<noteq> Inl StructError"
       "pack_H (aux_data (header c)) \<noteq> Inl StructError"
    and r: "get_all_chunks_as_bytes_loop cs r' = Inr bs"
    by (auto simp add: pack_H_def Let_def split: sum.splits if_splits)
  from p have "0 \<le> length_hdr (header c) \<and> length_hdr (header c) \<le> 65535 \<and>
               0 \<le> aux_data (header c) \<and> aux_data (header c) \<le> 65535"
    by (simp add: pack_H_def split: if_splits)
  then have "wf_chunk c" using Cons.prems(2) by (simp add: wf_chunk_def)
  moreover have "\<forall>c\<in>set cs. wf_chunk c" using Cons.IH[OF r] Cons.prems(2) by simp
  ultimately show ?case by simp
qed

lemma length_wire:
  "\<forall>c\<in>set cs. wf_chunk c \<Longrightarrow>
     int (length (wire cs)) = (\<Sum>c\<leftarrow>cs. 8 + length_hdr (header c))"
  by (induction cs) (simp_all add: wire_def chunk_bytes_def enc16_def wf_chunk_def)

lemma decode_wire:
  "\<exists>cs t. decode B = Inr (foldl append_chunk init cs) \<and> (\<forall>c\<in>set cs. wf_chunk c) \<and>
          B = wire cs @ t \<and> truncated t"
  using read_loop_wire[of B 0 init] by (simp add: decode_def read_def)

lemma decode_of_wire:
  "\<forall>c\<in>set cs. wf_chunk c \<Longrightarrow> truncated t \<Longrightarrow>
     decode (wire cs @ t) = Inr (foldl append_chunk init cs)"
  using read_loop_of_wire[of cs t "[]" init] by (simp add: decode_def read_def)

lemma truncated_Nil: "truncated []"
  by (simp add: truncated_def)

text \<open>
  Claim C1. For every buffer \<open>B\<close>, decoding succeeds, serialising the decoded chunks
  with \<open>get_all_chunks_as_bytes\<close> succeeds, and decoding that output gives the same
  reader: the same chunks, field for field and in the same order, and the same data
  blocks.
\<close>

theorem decode_reserialize_fixed_point:
  "\<exists>self bs. decode B = Inr self \<and> get_all_chunks_as_bytes self = Inr bs \<and>
             decode bs = Inr self"
proof -
  from decode_wire[of B] obtain cs t where
    d: "decode B = Inr (foldl append_chunk init cs)" and wf: "\<forall>c\<in>set cs. wf_chunk c"
    by blast
  let ?self = "foldl append_chunk init cs"
  have c: "chunks ?self = cs" by (simp add: chunks_foldl_append_chunk init_def)
  have "get_all_chunks_as_bytes ?self = Inr (wire cs)"
    using get_all_chunks_as_bytes_loop_wire[OF wf, of "[]"]
    by (simp add: get_all_chunks_as_bytes_def c)
  moreover have "decode (wire cs) = Inr ?self"
    using decode_of_wire[OF wf truncated_Nil] by simp
  ultimately show ?thesis using d by blast
qed

text \<open>
  Claim C3. For every buffer \<open>B\<close>, \<open>decode\<close> returns (the loop's termination is proved
  with its definition and the result is never an exception), the sum of \<open>8 + length\<close>
  over the emitted chunks is at most the length of \<open>B\<close>, and the payload of every emitted
  chunk has exactly the length its header declares.
\<close>

theorem decode_consumed_bound:
  "\<exists>self. decode B = Inr self \<and>
          (\<Sum>c\<leftarrow>chunks self. 8 + length_hdr (header c)) \<le> int (length B) \<and>
          (\<forall>c\<in>set (chunks self). int (length (data c)) = length_hdr (header c))"
proof -
  from decode_wire[of B] obtain cs t where
    d: "decode B = Inr (foldl append_chunk init cs)" and wf: "\<forall>c\<in>set cs. wf_chunk c"
    and b: "B = wire cs @ t"
    by blast
  let ?self = "foldl append_chunk init cs"
  have c: "chunks ?self = cs" by (simp add: chunks_foldl_append_chunk init_def)
  have "int (length B) = (\<Sum>c\<leftarrow>cs. 8 + length_hdr (header c)) + int (length t)"
    using length_wire[OF wf] b by simp
  then have "(\<Sum>c\<leftarrow>chunks ?self. 8 + length_hdr (header c)) \<le> int (length B)"
    by (simp add: c)
  moreover have "\<forall>c\<in>set (chunks ?self). int (length (data c)) = length_hdr (header c)"
    using wf by (simp add: c wf_chunk_def)
  ultimately show ?thesis using d by blast
qed

text \<open>
  Claim C2. For every buffer \<open>B\<close>, \<open>decode\<close> raises nothing, and \<open>B\<close> is the
  serialisation of the decoded chunks followed by a truncated tail: the chunks emitted
  are the complete ones before the first point where fewer than 8 bytes remain or the
  declared length overruns the buffer. Conversely, complete chunks followed by any
  truncated tail decode to exactly those chunks: nothing is emitted for the tail.
\<close>

theorem decode_truncation_policy:
  "(\<exists>self bs t. decode B = Inr self \<and> get_all_chunks_as_bytes self = Inr bs \<and>
                B = bs @ t \<and> truncated t) \<and>
   (\<forall>cs bs t.
      get_all_chunks_as_bytes_loop cs [] = Inr bs \<and>
      (\<forall>c\<in>set cs. length (chunk_type (header c)) = 4 \<and>
                  int (length (data c)) = length_hdr (header c)) \<and>
      truncated t \<longrightarrow>
      (\<exists>self. decode (bs @ t) = Inr self \<and> chunks self = cs \<and>
              data_blocks self = map data (filter (\<lambda>c. chunk_type (header c) = DATA) cs)))"
proof (intro conjI allI impI)
  from decode_wire[of B] obtain cs t where
    d: "decode B = Inr (foldl append_chunk init cs)" and wf: "\<forall>c\<in>set cs. wf_chunk c"
    and b: "B = wire cs @ t" and t: "truncated t"
    by blast
  let ?self = "foldl append_chunk init cs"
  have c: "chunks ?self = cs" by (simp add: chunks_foldl_append_chunk init_def)
  have "get_all_chunks_as_bytes ?self = Inr (wire cs)"
    using get_all_chunks_as_bytes_loop_wire[OF wf, of "[]"]
    by (simp add: get_all_chunks_as_bytes_def c)
  then show "\<exists>self bs t. decode B = Inr self \<and> get_all_chunks_as_bytes self = Inr bs \<and>
                B = bs @ t \<and> truncated t"
    using d b t by blast
next
  fix cs bs t
  assume a: "get_all_chunks_as_bytes_loop cs [] = Inr bs \<and>
      (\<forall>c\<in>set cs. length (chunk_type (header c)) = 4 \<and>
                  int (length (data c)) = length_hdr (header c)) \<and>
      truncated t"
  then have wf: "\<forall>c\<in>set cs. wf_chunk c"
    using get_all_chunks_as_bytes_loop_Inr[of cs "[]" bs] by blast
  have bs: "bs = wire cs"
    using get_all_chunks_as_bytes_loop_wire[OF wf, of "[]"] a by simp
  from a have t: "truncated t" by simp
  let ?self = "foldl append_chunk init cs"
  have "decode (bs @ t) = Inr ?self"
    using decode_of_wire[OF wf t] by (simp add: bs)
  moreover have "chunks ?self = cs" by (simp add: chunks_foldl_append_chunk init_def)
  moreover have "data_blocks ?self = map data (filter (\<lambda>c. chunk_type (header c) = DATA) cs)"
    by (simp add: data_blocks_foldl_append_chunk init_def)
  ultimately show "\<exists>self. decode (bs @ t) = Inr self \<and> chunks self = cs \<and>
              data_blocks self = map data (filter (\<lambda>c. chunk_type (header c) = DATA) cs)"
    by blast
qed

lemmas tape_defs = tape_chunk_def tape_reader_def tape_wire_def partial_header_def
  partial_payload_def

lemma decode_tape_partial_header: "decode (tape_wire @ partial_header) = Inr tape_reader"
  by (simp add: tape_defs decode_def read_def read_loop.simps slice_def init_def DATA_def Let_def)

text \<open>Claim C3 at the example stream followed by a partial header.\<close>

theorem decode_consumed_bound_witness:
  "decode (tape_wire @ partial_header) = Inr tape_reader \<and>
   (\<Sum>c\<leftarrow>chunks tape_reader. 8 + length_hdr (header c)) \<le> int (length (tape_wire @ partial_header)) \<and>
   tape_chunk \<in> set (chunks tape_reader) \<and>
   int (length (data tape_chunk)) = length_hdr (header tape_chunk)"
proof -
  from decode_consumed_bound[of "tape_wire @ partial_header"] obtain self where
    d: "decode (tape_wire @ partial_header) = Inr self"
    and s: "(\<Sum>c\<leftarrow>chunks self. 8 + length_hdr (header c)) \<le> int (length (tape_wire @ partial_header))"
    and a: "\<forall>c\<in>set (chunks self). int (length (data c)) = length_hdr (header c)"
    by blast
  from d have self: "self = tape_reader" by (simp add: decode_tape_partial_header)
  have m: "tape_chunk \<in> set (chunks tape_reader)" by (simp add: tape_reader_def)
  from a m have "int (length (data tape_chunk)) = length_hdr (header tape_chunk)"
    unfolding self by blast
  with s m show ?thesis unfolding self by (simp add: decode_tape_partial_header)
qed

text \<open>Claim C2 at the example stream followed by each of the two truncated tails.\<close>

theorem decode_truncation_policy_witness:
  "get_all_chunks_as_bytes_loop [tape_chunk] [] = Inr tape_wire \<and>
   length (chunk_type (header tape_chunk)) = 4 \<and>
   int (length (data tape_chunk)) = length_hdr (header tape_chunk) \<and>
   truncated partial_header \<and> truncated partial_payload \<and>
   decode (tape_wire @ partial_header) = Inr tape_reader \<and>
   decode (tape_wire @ partial_payload) = Inr tape_reader"
proof -
  have g: "get_all_chunks_as_bytes_loop [tape_chunk] [] = Inr tape_wire"
    by (simp add: tape_defs pack_H_def DATA_def)
  have c: "\<forall>c\<in>set [tape_chunk]. length (chunk_type (header c)) = 4 \<and>
             int (length (data c)) = length_hdr (header c)"
    by (simp add: tape_defs DATA_def)
  have t1: "truncated partial_header" by (simp add: truncated_def tape_defs)
  have t2: "truncated partial_payload" by (simp add: truncated_def le16_def tape_defs)
  have filt: "map data (filter (\<lambda>c. chunk_type (header c) = DATA) [tape_chunk]) = [[0xAA, 0xBB]]"
    by (simp add: tape_defs)
  have r: "\<And>t. truncated t \<Longrightarrow> decode (tape_wire @ t) = Inr tape_reader"
  proof -
    fix t assume "truncated t"
    with decode_truncation_policy[of "[]"] g c obtain self where
      d: "decode (tape_wire @ t) = Inr self" and cs: "chunks self = [tape_chunk]" and
      bs: "data_blocks self = map data (filter (\<lambda>c. chunk_type (header c) = DATA) [tape_chunk])"
      by blast
    have "self = tape_reader"
      by (rule cas_reader.equality) (simp_all add: cs bs tape_reader_def tape_chunk_def)
    with d show "decode (tape_wire @ t) = Inr tape_reader" by simp
  qed
  from g c t1 t2 r[OF t1] r[OF t2] show ?thesis by simp
qed

section \<open>The flat byte stream\<close>

lemma to_byte_array_loop_concat:
  "to_byte_array_loop cs r =
     r @ concat (map data (filter (\<lambda>c. chunk_type (header c) = DATA) cs))"
  by (induction cs arbitrary: r) simp_all

text \<open>
  Claim C5. For every parsed chunk sequence, \<open>to_byte_array\<close> is the concatenation, in
  the original order, of the unmodified payloads of exactly the chunks whose type code
  is \<open>data\<close>, and it equals the concatenation of the list \<open>get_data_blocks\<close> returns.
\<close>

theorem flat_byte_stream_is_data_payloads:
  "\<exists>self. decode B = Inr self \<and>
          to_byte_array self =
            concat (map data (filter (\<lambda>c. chunk_type (header c) = DATA) (chunks self))) \<and>
          to_byte_array self = concat (get_data_blocks self)"
proof -
  from decode_wire[of B] obtain cs where
    d: "decode B = Inr (foldl append_chunk init cs)" by blast
  let ?self = "foldl append_chunk init cs"
  have "to_byte_array ?self =
          concat (map data (filter (\<lambda>c. chunk_type (header c) = DATA) (chunks ?self)))"
    by (simp add: to_byte_array_def to_byte_array_loop_concat)
  moreover have "to_byte_array ?self = concat (get_data_blocks ?self)"
    by (simp add: to_byte_array_def to_byte_array_loop_concat get_data_blocks_def
        chunks_foldl_append_chunk data_blocks_foldl_append_chunk init_def)
  ultimately show ?thesis using d by blast
qed


section \<open>Metadata\<close>

lemma utf_8_error: "utf_8 xs = Inl e \<Longrightarrow> e = UnicodeDecodeError"
proof (induction "length xs" arbitrary: xs e rule: less_induct)
  case less
  have ih: "\<And>ys e'. length ys < length xs \<Longrightarrow> utf_8 ys = Inl e' \<Longrightarrow> e' = UnicodeDecodeError"
    using less.hyps by blast
  show ?case
  proof (cases xs)
    case Nil
    with less.prems show ?thesis by simp
  next
    case (Cons b0 bs)
    have r: "\<And>ys c. length ys < length xs \<Longrightarrow>
        (case utf_8 ys of Inl e \<Rightarrow> Inl e | Inr t \<Rightarrow> Inr (c # t)) = Inl e \<Longrightarrow> e = UnicodeDecodeError"
      using ih by (auto split: sum.splits)
    from less.prems Cons show ?thesis
      apply (simp split: if_splits list.splits)
      apply (auto dest!: r[rotated] simp add: Cons)
      done
  qed
qed

lemma decode_utf_8_cases:
  "decode_utf_8 bs = Inl UnicodeDecodeError \<or> (\<exists>t. decode_utf_8 bs = Inr t)"
  unfolding decode_utf_8_def using utf_8_error[of "map unat bs"]
  by (cases "utf_8 (map unat bs)") auto

lemma charmap_decode_latin_1: "charmap_decode latin_1 handler bs = Inr (map unat bs)"
  by (induction bs) (simp_all add: latin_1_def)

lemma charmap_decode_ascii_Ignore:
  "charmap_decode ascii Ignore bs = Inr (map unat (filter (\<lambda>b. b < 0x80) bs))"
  by (induction bs) (simp_all add: ascii_def)

lemma charmap_decode_ascii_Replace:
  "charmap_decode ascii Replace bs = Inr (map (\<lambda>b. if b < 0x80 then unat b else 0xFFFD) bs)"
  by (induction bs) (simp_all add: ascii_def)

lemma find_snoc:
  "find P (xs @ [x]) = (case find P xs of Some y \<Rightarrow> Some y | None \<Rightarrow> if P x then Some x else None)"
  by (induction xs) simp_all

lemma get_metadata_loop_step_FUJI:
  "chunk_type (header c) = FUJI \<Longrightarrow>
     get_metadata_loop (c # cs) m =
     get_metadata_loop cs (m\<lparr>description := Some (description_text (data c))\<rparr>)"
  using decode_utf_8_cases[of "data c"]
  by (auto simp add: description_text_def charmap_decode_latin_1)

lemma FUJI_neq_BAUD: "FUJI \<noteq> BAUD"
  by (simp add: FUJI_def BAUD_def)

lemma get_metadata_loop_step_BAUD:
  "chunk_type (header c) = BAUD \<Longrightarrow> 2 \<le> length (data c) \<Longrightarrow>
     get_metadata_loop (c # cs) m = get_metadata_loop cs (m\<lparr>baudrate := le16 (data c) 0\<rparr>)"
  using FUJI_neq_BAUD unpack_H_slice[of 0 "data c" 2]
  by simp

lemma get_metadata_loop_step_other:
  "chunk_type (header c) \<noteq> FUJI \<Longrightarrow>
   \<not> (chunk_type (header c) = BAUD \<and> 2 \<le> length (data c)) \<Longrightarrow>
     get_metadata_loop (c # cs) m = get_metadata_loop cs m"
  by auto

lemma get_metadata_loop_Cons:
  "get_metadata_loop (c # cs) m = get_metadata_loop cs (metadata_step c m)"
proof -
  consider (fuji) "chunk_type (header c) = FUJI"
    | (baud) "chunk_type (header c) \<noteq> FUJI" "chunk_type (header c) = BAUD" "2 \<le> length (data c)"
    | (other) "chunk_type (header c) \<noteq> FUJI"
        "\<not> (chunk_type (header c) = BAUD \<and> 2 \<le> length (data c))"
    by blast
  then show ?thesis
  proof cases
    case fuji
    have "metadata_step c m = m\<lparr>description := Some (description_text (data c))\<rparr>"
      using fuji by (simp add: metadata_step_def)
    then show ?thesis by (simp only: get_metadata_loop_step_FUJI[OF fuji])
  next
    case baud
    have "metadata_step c m = m\<lparr>baudrate := le16 (data c) 0\<rparr>"
      using baud by (simp add: metadata_step_def)
    then show ?thesis by (simp only: get_metadata_loop_step_BAUD[OF baud(2,3)])
  next
    case other
    have "metadata_step c m = m"
      using other by (auto simp add: metadata_step_def)
    then show ?thesis by (simp only: get_metadata_loop_step_other[OF other])
  qed
qed

lemma get_metadata_loop_fold: "get_metadata_loop cs m = Inr (fold metadata_step cs m)"
  by (induction cs arbitrary: m) (simp_all only: get_metadata_loop_Cons get_metadata_loop.simps(1) fold_simps)

lemma description_fold_metadata_step:
  "description (fold metadata_step cs m) =
     (case find (\<lambda>c. chunk_type (header c) = FUJI) (rev cs) of
        Some c \<Rightarrow> Some (description_text (data c))
      | None \<Rightarrow> description m)"
  by (induction cs rule: rev_induct) (simp_all add: metadata_step_def)

lemma baudrate_fold_metadata_step:
  "baudrate (fold metadata_step cs m) =
     (case find (\<lambda>c. chunk_type (header c) = BAUD \<and> 2 \<le> length (data c)) (rev cs) of
        Some c \<Rightarrow> le16 (data c) 0
      | None \<Rightarrow> baudrate m)"
  using FUJI_neq_BAUD
  by (induction cs rule: rev_induct) (auto simp add: metadata_step_def)

lemma counts_fold_metadata_step:
  "chunk_count (fold metadata_step cs m) = chunk_count m"
  "data_block_count (fold metadata_step cs m) = data_block_count m"
  "metadata.more (fold metadata_step cs m) = metadata.more m"
  by (induction cs rule: rev_induct) (simp_all add: metadata_step_def)

lemma get_metadata_last_wins:
  "data_blocks self = map data (filter (\<lambda>c. chunk_type (header c) = DATA) (chunks self)) \<Longrightarrow>
     get_metadata self = Inr (last_wins_metadata self)"
  unfolding get_metadata_def get_metadata_loop_fold
  by (simp, rule metadata.equality)
     (simp_all add: description_fold_metadata_step baudrate_fold_metadata_step
        counts_fold_metadata_step last_wins_metadata_def split: option.splits)

text \<open>
  Claim C4, amended. For every parsed chunk sequence \<open>get_metadata\<close> returns: the
  description is the decoded text of the payload of the last description chunk, or
  absent when there is none; the baud rate is the little-endian 16-bit value of the first
  2 bytes of the last baud-rate chunk whose payload has at least 2 bytes, or 600 when
  there is none; the chunk count is the number of chunks and the data block count the
  number of data chunks.
\<close>

theorem get_metadata_last_chunk_wins:
  "\<exists>self. decode B = Inr self \<and> get_metadata self = Inr (last_wins_metadata self)"
proof -
  from decode_wire[of B] obtain cs where
    d: "decode B = Inr (foldl append_chunk init cs)" by blast
  let ?self = "foldl append_chunk init cs"
  have "data_blocks ?self = map data (filter (\<lambda>c. chunk_type (header c) = DATA) (chunks ?self))"
    by (simp add: chunks_foldl_append_chunk data_blocks_foldl_append_chunk init_def)
  from get_metadata_last_wins[OF this] d show ?thesis by blast
qed

lemma decode_two_of_each: "decode two_of_each = Inr two_of_each_reader"
  by (simp add: two_of_each_def two_of_each_reader_def decode_def read_def
      read_loop.simps slice_def init_def DATA_def FUJI_def BAUD_def Let_def)

text \<open>
  Claim C4 as stated fails: in the parsed stream of two description chunks and two
  baud-rate chunks the summary carries the text and the rate of the second chunk of
  each kind, where the first-chunk reading gives those of the first.
\<close>

theorem get_metadata_first_chunk_counterexample:
  "decode two_of_each = Inr two_of_each_reader \<and>
   get_metadata two_of_each_reader =
     Inr \<lparr>description = Some (str ''B''), baudrate = 300, chunk_count = 4,
          data_block_count = 0\<rparr> \<and>
   spec_metadata two_of_each_reader =
     \<lparr>description = Some (str ''A''), baudrate = 1200, chunk_count = 4,
      data_block_count = 0\<rparr> \<and>
   get_metadata two_of_each_reader \<noteq> Inr (spec_metadata two_of_each_reader)"
proof -
  have g: "get_metadata two_of_each_reader =
     Inr \<lparr>description = Some (str ''B''), baudrate = 300, chunk_count = 4,
          data_block_count = 0\<rparr>"
    by (simp add: get_metadata_def two_of_each_reader_def decode_utf_8_def FUJI_def BAUD_def
        slice_def str_def)
  have s: "spec_metadata two_of_each_reader =
     \<lparr>description = Some (str ''A''), baudrate = 1200, chunk_count = 4,
      data_block_count = 0\<rparr>"
    by (simp add: spec_metadata_def two_of_each_reader_def description_text_def
        decode_utf_8_def FUJI_def BAUD_def DATA_def le16_def str_def)
  have "get_metadata two_of_each_reader \<noteq> Inr (spec_metadata two_of_each_reader)"
    unfolding g s by (simp add: str_def)
  with decode_two_of_each g s show ?thesis by simp
qed


text \<open>
  Claim C7. For every reader state, whatever the payloads, \<open>get_metadata\<close> returns a
  summary and no exception; the description is the primary decoding of the payload of
  the deciding chunk and, when that decoding raises, the fall-back decoding; the
  fall-back decoding succeeds on every byte sequence, one code point for each byte; and
  the primary decoding either succeeds or raises the exception that the method catches.
\<close>

theorem get_metadata_never_raises:
  "(\<exists>m. get_metadata self = Inr m \<and>
        description m =
          map_option (\<lambda>c. case decode_utf_8 (data c) of Inr t \<Rightarrow> t | Inl e \<Rightarrow> map unat (data c))
            (find (\<lambda>c. chunk_type (header c) = FUJI) (rev (chunks self)))) \<and>
   charmap_decode latin_1 Ignore bs = Inr (map unat bs) \<and>
   (decode_utf_8 bs = Inl UnicodeDecodeError \<or> (\<exists>t. decode_utf_8 bs = Inr t))"
proof -
  let ?m = "fold metadata_step (chunks self)
              \<lparr>description = None, baudrate = 600, chunk_count = int (length (chunks self)),
               data_block_count = int (length (data_blocks self))\<rparr>"
  have "get_metadata self = Inr ?m"
    by (simp only: get_metadata_def get_metadata_loop_fold)
  moreover have "description ?m =
          map_option (\<lambda>c. case decode_utf_8 (data c) of Inr t \<Rightarrow> t | Inl e \<Rightarrow> map unat (data c))
            (find (\<lambda>c. chunk_type (header c) = FUJI) (rev (chunks self)))"
    by (simp add: description_fold_metadata_step description_text_def split: option.splits)
  ultimately show ?thesis
    using charmap_decode_latin_1[of Ignore bs] decode_utf_8_cases[of bs] by blast
qed

section \<open>Chunk summaries\<close>

lemma get_chunk_info_loop_eq:
  "get_chunk_info_loop cs i info =
     Inr (info @
          map (\<lambda>k. \<lparr>index_info = i + int k,
                     type_info = map unat (filter (\<lambda>b. b < 0x80) (chunk_type (header (cs ! k)))),
                     length_info = length_hdr (header (cs ! k)),
                     aux_data_info = aux_data (header (cs ! k))\<rparr>) [0..<length cs])"
proof (induction cs arbitrary: i info)
  case Nil
  show ?case by simp
next
  case (Cons c cs)
  show ?case
    by (simp add: charmap_decode_ascii_Ignore Cons.IH map_upt_Suc add.assoc del: upt_Suc)
qed

text \<open>
  Claim C8, amended. \<open>get_chunk_info\<close> returns one summary for each chunk, in the original
  order, with the chunk's zero-based index, its declared length and its auxiliary value;
  the type code is rendered by dropping every byte of value 0x80 or above and keeping
  every byte below 0x80, printable or not, as the character of that code. No placeholder
  is inserted and nothing is raised.
\<close>

theorem get_chunk_info_summaries:
  "get_chunk_info self =
     Inr (map (\<lambda>k. \<lparr>index_info = int k,
                     type_info =
                       map unat (filter (\<lambda>b. b < 0x80) (chunk_type (header (chunks self ! k)))),
                     length_info = length_hdr (header (chunks self ! k)),
                     aux_data_info = aux_data (header (chunks self ! k))\<rparr>)
            [0..<length (chunks self)])"
  by (simp add: get_chunk_info_def get_chunk_info_loop_eq)

lemma decode_odd_type: "decode odd_type = Inr odd_type_reader"
  by (simp add: odd_type_def odd_type_reader_def decode_def read_def
      read_loop.simps slice_def init_def DATA_def Let_def)

text \<open>
  Claim C8 as stated fails: in the parsed stream whose type code is \<open>d\<close>, \<open>a\<close>, 0xFF and a
  line feed, the rendered type has three characters, so it is not the type code with
  placeholders in the place of its bytes outside the printable range, whatever the
  placeholder.
\<close>

theorem get_chunk_info_placeholder_counterexample:
  "decode odd_type = Inr odd_type_reader \<and>
   \<not> (\<exists>placeholder infos.
         get_chunk_info odd_type_reader = Inr infos \<and>
         type_info (infos ! 0) =
           spec_type_text placeholder (chunk_type (header (chunks odd_type_reader ! 0))))"
proof -
  have g: "get_chunk_info odd_type_reader =
             Inr [\<lparr>index_info = 0, type_info = [0x64, 0x61, 0x0A], length_info = 0,
                   aux_data_info = 0\<rparr>]"
    by (simp add: get_chunk_info_def odd_type_reader_def ascii_def)
  have l: "\<And>placeholder. length (spec_type_text placeholder
            (chunk_type (header (chunks odd_type_reader ! 0)))) = 4"
    by (simp add: spec_type_text_def odd_type_reader_def)
  have "\<not> (\<exists>placeholder infos.
         get_chunk_info odd_type_reader = Inr infos \<and>
         type_info (infos ! 0) =
           spec_type_text placeholder (chunk_type (header (chunks odd_type_reader ! 0))))"
  proof
    assume "\<exists>placeholder infos.
         get_chunk_info odd_type_reader = Inr infos \<and>
         type_info (infos ! 0) =
           spec_type_text placeholder (chunk_type (header (chunks odd_type_reader ! 0)))"
    then obtain placeholder infos where
      i: "get_chunk_info odd_type_reader = Inr infos" and
      t: "type_info (infos ! 0) =
           spec_type_text placeholder (chunk_type (header (chunks odd_type_reader ! 0)))"
      by blast
    from i g have "infos = [\<lparr>index_info = 0, type_info = [0x64, 0x61, 0x0A], length_info = 0,
                   aux_data_info = 0\<rparr>]" by simp
    then have "type_info (infos ! 0) = [0x64, 0x61, 0x0A]" by simp
    then have "length (type_info (infos ! 0)) = 3" by simp
    with t l[of placeholder] show False by simp
  qed
  with decode_odd_type show ?thesis by simp
qed


section \<open>Dumps\<close>

declare dump_rows.simps [simp del]

lemma dump_rows_append:
  "dump_rows d sh sa off out = out @ dump_rows d sh sa off []"
proof (induction "length d - off" arbitrary: off out rule: less_induct)
  case less
  show ?case
  proof (cases "off < length d")
    case True
    then have lt: "length d - (off + 16) < length d - off" by arith
    let ?l = "dump_line off (slice d off (off + 16)) sh sa"
    have "dump_rows d sh sa off out = dump_rows d sh sa (off + 16) (out @ [?l])"
      using True by (subst dump_rows.simps) (simp add: Let_def)
    also have "\<dots> = (out @ [?l]) @ dump_rows d sh sa (off + 16) []"
      by (rule less[OF lt])
    also have "dump_rows d sh sa (off + 16) [?l] = [?l] @ dump_rows d sh sa (off + 16) []"
      by (rule less[OF lt])
    then have "(out @ [?l]) @ dump_rows d sh sa (off + 16) [] =
               out @ dump_rows d sh sa (off + 16) [?l]"
      by simp
    also have "dump_rows d sh sa (off + 16) [?l] = dump_rows d sh sa off []"
      using True by (subst (2) dump_rows.simps) (simp add: Let_def)
    finally show ?thesis .
  next
    case False
    then show ?thesis by (subst (1 2) dump_rows.simps) simp
  qed
qed

lemma dump_rows_16:
  "length d = 16 \<Longrightarrow> dump_rows d sh sa 0 [] = [dump_line 0 d sh sa]"
  by (subst dump_rows.simps, simp add: Let_def slice_def, subst dump_rows.simps, simp)

lemma dump_rows_17:
  "length d = 17 \<Longrightarrow>
     dump_rows d sh sa 0 [] = [dump_line 0 (take 16 d) sh sa, dump_line 16 [d ! 16] sh sa]"
proof -
  assume l: "length d = 17"
  have "drop 16 d = [d ! 16]"
    using l by (metis Cons_nth_drop_Suc drop_all lessI order_refl numeral_eq_Suc
        Suc_eq_plus1 add.commute eval_nat_numeral(3) pred_numeral_simps(3))
  then show ?thesis using l
    by (subst dump_rows.simps, simp add: Let_def slice_def, subst dump_rows.simps,
        simp add: Let_def slice_def, subst dump_rows.simps, simp)
qed

lemma length_dec_digits: "0 < k \<Longrightarrow> n < 10 ^ k \<Longrightarrow> length (dec_digits n) \<le> k"
proof (induction n arbitrary: k rule: dec_digits.induct)
  case (1 n)
  show ?case
  proof (cases "n < 10")
    case True
    then have "dec_digits n = [''0123456789'' ! n]" by (subst dec_digits.simps) simp
    with 1(2) show ?thesis by simp
  next
    case False
    then have d: "dec_digits n = dec_digits (n div 10) @ [''0123456789'' ! (n mod 10)]"
      by (subst dec_digits.simps) simp
    from False 1(3) have "1 < k"
      by (metis One_nat_def Suc_lessI 1(2) power_one_right)
    then obtain j where k: "k = Suc j" and j: "0 < j" by (cases k) auto
    from 1(3) have "n div 10 < 10 ^ j" unfolding k by (simp add: less_mult_imp_div_less mult.commute)
    from 1(1)[OF False j this] show ?thesis by (simp add: d k del: dec_digits.simps)
  qed
qed

lemma str_int_error: "str_int i = Inl e \<Longrightarrow> e = ValueError"
  by (simp add: str_int_def split: if_splits)

lemma str_int_Inr: "\<bar>i\<bar> < 10 ^ int_max_str_digits \<Longrightarrow> \<exists>t. str_int i = Inr t"
proof -
  assume "\<bar>i\<bar> < 10 ^ int_max_str_digits"
  then have "nat \<bar>i\<bar> < 10 ^ int_max_str_digits"
    by (metis nat_less_iff abs_ge_zero of_nat_numeral of_nat_power)
  moreover have "0 < int_max_str_digits" by (simp add: int_max_str_digits_def)
  ultimately have "length (dec_digits (nat \<bar>i\<bar>)) \<le> int_max_str_digits"
    by (intro length_dec_digits)
  then show ?thesis by (simp add: str_int_def del: dec_digits.simps)
qed

lemma small_below_limit: "(65535 :: int) < 10 ^ int_max_str_digits"
proof -
  have "(65535 :: int) < 10 ^ 5" by simp
  also have "(10 :: int) ^ 5 \<le> 10 ^ int_max_str_digits"
    by (rule power_increasing) (simp_all add: int_max_str_digits_def)
  finally show ?thesis .
qed

lemma header_line_error: "header_line idx c = Inl e \<Longrightarrow> e = ValueError"
  by (auto simp add: header_line_def split: sum.splits)

lemma header_line_Inr:
  assumes "wf_chunk c" "0 \<le> idx" "idx < 10 ^ int_max_str_digits"
  shows "\<exists>h. header_line idx c = Inr h"
proof -
  from assms(2,3) obtain i where "str_int idx = Inr i"
    using str_int_Inr[of idx] by auto
  moreover from assms(1) small_below_limit obtain l where "str_int (length_hdr (header c)) = Inr l"
    using str_int_Inr[of "length_hdr (header c)"] by (auto simp add: wf_chunk_def)
  moreover from assms(1) small_below_limit obtain a where "str_int (aux_data (header c)) = Inr a"
    using str_int_Inr[of "aux_data (header c)"] by (auto simp add: wf_chunk_def)
  ultimately show ?thesis by (simp add: header_line_def)
qed

lemma chunk_section_error: "chunk_section self idx sh sa = Inl e \<Longrightarrow> e = ValueError"
  by (auto simp add: chunk_section_def split: if_splits sum.splits dest: header_line_error)

lemma dump_chunk_eq:
  "dump_chunk self idx sh sa out =
     (case chunk_section self idx sh sa of Inl e \<Rightarrow> Inl e | Inr sec \<Rightarrow> Inr (out @ sec))"
  by (auto simp add: dump_chunk_def chunk_section_def charmap_decode_ascii_Replace Let_def
      header_line_def dump_rows_append[of _ _ _ _ "_ @ _"] split: sum.splits
      dest: str_int_error)

lemma dump_loop_eq:
  "dump_loop self idxs sh sa out =
     (if \<forall>i\<in>set idxs. \<not> isl (chunk_section self i sh sa)
      then Inr (out @ concat (map (\<lambda>i. projr (chunk_section self i sh sa)) idxs))
      else Inl ValueError)"
proof (induction idxs arbitrary: out)
  case Nil
  show ?case by simp
next
  case (Cons idx idxs)
  show ?case
  proof (cases "chunk_section self idx sh sa")
    case (Inl e)
    then have "e = ValueError" by (rule chunk_section_error)
    with Inl show ?thesis by (simp add: dump_chunk_eq)
  next
    case (Inr sec)
    then show ?thesis by (simp add: dump_chunk_eq Cons.IH)
  qed
qed

lemma dump_output_lines_single:
  "dump_output_lines self (Some [idx]) sh sa = chunk_section self idx sh sa"
proof (cases "chunk_section self idx sh sa")
  case (Inl e)
  then have "e = ValueError" by (rule chunk_section_error)
  with Inl show ?thesis by (simp add: dump_output_lines_def dump_loop_eq)
next
  case (Inr sec)
  then show ?thesis by (simp add: dump_output_lines_def dump_loop_eq)
qed

lemma dump_chunks_single:
  "dump_chunks self (Some [idx]) sh sa =
     (case chunk_section self idx sh sa of Inl e \<Rightarrow> Inl e | Inr sec \<Rightarrow> Inr (str_join [10] sec))"
  by (simp add: dump_chunks_def dump_output_lines_single)

lemma dump_chunks_Some:
  "dump_chunks self (Some idxs) sh sa =
     (if \<forall>i\<in>set idxs. \<not> isl (chunk_section self i sh sa)
      then Inr (str_join [10] (concat (map (\<lambda>i. projr (chunk_section self i sh sa)) idxs)))
      else Inl ValueError)"
  by (simp add: dump_chunks_def dump_output_lines_def dump_loop_eq)

lemma chunk_section_out_of_range:
  "idx < 0 \<or> int (length (chunks self)) \<le> idx \<Longrightarrow> chunk_section self idx sh sa = Inr []"
  by (auto simp add: chunk_section_def)

lemma chunk_section_in_range:
  "0 \<le> idx \<Longrightarrow> idx < int (length (chunks self)) \<Longrightarrow>
   header_line idx (chunks self ! nat idx) = Inr h \<Longrightarrow>
     chunk_section self idx sh sa =
       Inr ([h, replicate 80 (of_char CHR ''-'')] @
            (if data (chunks self ! nat idx) = [] then [str ''  (empty)'']
             else dump_rows (data (chunks self ! nat idx)) sh sa 0 []) @ [[]])"
  by (simp add: chunk_section_def)

lemma decode_wf_chunks: "decode B = Inr self \<Longrightarrow> \<forall>c\<in>set (chunks self). wf_chunk c"
  using decode_wire[of B] by (auto simp add: chunks_foldl_append_chunk init_def)

lemma chunk_section_decoded:
  assumes "decode B = Inr self" "int (length (chunks self)) \<le> 10 ^ int_max_str_digits"
  shows "\<not> isl (chunk_section self idx sh sa)"
proof (cases "idx < 0 \<or> int (length (chunks self)) \<le> idx")
  case True
  then show ?thesis by (simp add: chunk_section_out_of_range)
next
  case False
  then have r: "0 \<le> idx" "idx < int (length (chunks self))" by auto
  then have "chunks self ! nat idx \<in> set (chunks self)" by simp
  with assms(1) have "wf_chunk (chunks self ! nat idx)" using decode_wf_chunks by blast
  moreover from r(2) assms(2) have "idx < 10 ^ int_max_str_digits" by (rule less_le_trans)
  ultimately obtain h where "header_line idx (chunks self ! nat idx) = Inr h"
    using header_line_Inr r(1) by blast
  with r show ?thesis by (simp add: chunk_section_in_range)
qed

lemma ascii_part_nth:
  "i < length ld \<Longrightarrow>
     ascii_part ld ! i = (if 0x20 \<le> ld ! i \<and> ld ! i \<le> 0x7E then unat (ld ! i) else 46)"
proof -
  assume i: "i < length ld"
  have "ld ! i < 127 \<longleftrightarrow> ld ! i \<le> 0x7E"
    by (simp add: word_less_nat_alt word_le_nat_alt) arith
  then show ?thesis using i by (simp add: ascii_part_def)
qed

lemma dump_line_ascii_only:
  "dump_line offset ld False True = format_x 4 offset @ str '': '' @ ascii_part ld"
  by (simp add: dump_line_def str_def)

lemma dump_line_hex_ascii:
  "dump_line offset ld True True =
     format_x 4 offset @ str '': '' @ hex_part ld @ str '' | '' @ ascii_part ld"
  by (simp add: dump_line_def str_def)

lemma str_join_append:
  "xs \<noteq> [] \<Longrightarrow> ys \<noteq> [] \<Longrightarrow>
     str_join sep (xs @ ys) = str_join sep xs @ sep @ str_join sep ys"
proof (induction sep xs rule: str_join.induct)
  case (1 sep)
  then show ?case by simp
next
  case (2 sep x)
  then show ?case by (cases ys) simp_all
next
  case (3 sep x y zs)
  then show ?case by simp
qed

lemma str_join_concat:
  "\<forall>s\<in>set secs. s \<noteq> [] \<longrightarrow> str_join sep s \<noteq> [] \<Longrightarrow>
     str_join sep (concat secs) =
     str_join sep (filter (\<lambda>t. t \<noteq> []) (map (str_join sep) secs))"
proof (induction secs)
  case Nil
  show ?case by simp
next
  case (Cons s secs)
  then have ih: "str_join sep (concat secs) =
                 str_join sep (filter (\<lambda>t. t \<noteq> []) (map (str_join sep) secs))"
    by simp
  show ?case
  proof (cases "s = []")
    case True
    then show ?thesis by (simp add: ih)
  next
    case False
    with Cons.prems have ne: "str_join sep s \<noteq> []" by simp
    show ?thesis
    proof (cases "concat secs = []")
      case True
      then have "\<forall>t\<in>set secs. t = []" by simp
      then have "filter (\<lambda>t. t \<noteq> []) (map (str_join sep) secs) = []"
        by (induction secs) simp_all
      then have "str_join sep (filter (\<lambda>t. t \<noteq> []) (map (str_join sep) (s # secs))) =
                 str_join sep s"
        using ne by simp
      moreover have "str_join sep (concat (s # secs)) = str_join sep s"
        by (simp only: concat.simps True append_Nil2)
      ultimately show ?thesis by simp
    next
      case c: False
      then obtain t where t: "t \<in> set secs" "t \<noteq> []" by auto
      with Cons.prems have "str_join sep t \<noteq> []" by simp
      with t(1) have "filter (\<lambda>t. t \<noteq> []) (map (str_join sep) secs) \<noteq> []"
        by (auto simp add: filter_empty_conv)
      then obtain u us where u: "filter (\<lambda>t. t \<noteq> []) (map (str_join sep) secs) = u # us"
        by (cases "filter (\<lambda>t. t \<noteq> []) (map (str_join sep) secs)") auto
      have "str_join sep (concat (s # secs)) = str_join sep s @ sep @ str_join sep (concat secs)"
        using False c by (simp add: str_join_append)
      also have "\<dots> = str_join sep (str_join sep s # u # us)"
        by (simp add: ih u)
      finally show ?thesis using ne by (simp add: u)
    qed
  qed
qed

lemma chunk_section_text:
  "chunk_section self idx sh sa = Inr sec \<Longrightarrow> sec \<noteq> [] \<Longrightarrow> str_join [10] sec \<noteq> []"
  by (auto simp add: chunk_section_def split: if_splits sum.splits)

lemma dump_chunks_out_of_range:
  "\<forall>i\<in>set idxs. i < 0 \<or> int (length (chunks self)) \<le> i \<Longrightarrow>
     dump_chunks self (Some idxs) sh sa = Inr []"
proof -
  assume a: "\<forall>i\<in>set idxs. i < 0 \<or> int (length (chunks self)) \<le> i"
  then have s: "\<forall>i\<in>set idxs. chunk_section self i sh sa = Inr []"
    by (simp add: chunk_section_out_of_range)
  then have "\<forall>sec\<in>set (map (\<lambda>i. projr (chunk_section self i sh sa)) idxs). sec = []"
    by simp
  then have "concat (map (\<lambda>i. projr (chunk_section self i sh sa)) idxs) = []"
    by (simp only: concat_eq_Nil_conv)
  moreover from s have "\<forall>i\<in>set idxs. \<not> isl (chunk_section self i sh sa)" by simp
  ultimately show ?thesis by (simp only: dump_chunks_Some str_join.simps) simp
qed

lemma dump_chunks_skip:
  "skipped < 0 \<or> int (length (chunks self)) \<le> skipped \<Longrightarrow>
     dump_chunks self (Some (before @ skipped # after)) sh sa =
     dump_chunks self (Some (before @ after)) sh sa"
  by (simp add: dump_chunks_Some chunk_section_out_of_range)

lemma dump_chunks_decoded:
  assumes "decode B = Inr self" "int (length (chunks self)) \<le> 10 ^ int_max_str_digits"
  shows "\<exists>text. dump_chunks self chunk_indices sh sa = Inr text"
proof (cases chunk_indices)
  case None
  then have "dump_chunks self chunk_indices sh sa =
             dump_chunks self (Some (map int [0..<length (chunks self)])) sh sa"
    by (simp add: dump_chunks_def dump_output_lines_def)
  then show ?thesis
    using chunk_section_decoded[OF assms] by (simp add: dump_chunks_Some)
next
  case (Some idxs)
  then show ?thesis
    using chunk_section_decoded[OF assms] by (simp add: dump_chunks_Some)
qed

lemma dump_chunks_sections:
  assumes "length texts = length idxs"
    "\<forall>k<length idxs. dump_chunks self (Some [idxs ! k]) sh sa = Inr (texts ! k)"
  shows "dump_chunks self (Some idxs) sh sa = Inr (str_join [10] (filter (\<lambda>t. t \<noteq> []) texts))"
proof -
  let ?sec = "\<lambda>i. projr (chunk_section self i sh sa)"
  have each: "\<And>k. k < length idxs \<Longrightarrow>
      chunk_section self (idxs ! k) sh sa = Inr (?sec (idxs ! k)) \<and>
      texts ! k = str_join [10] (?sec (idxs ! k))"
  proof -
    fix k assume "k < length idxs"
    with assms(2) have "dump_chunks self (Some [idxs ! k]) sh sa = Inr (texts ! k)" by simp
    then show "chunk_section self (idxs ! k) sh sa = Inr (?sec (idxs ! k)) \<and>
      texts ! k = str_join [10] (?sec (idxs ! k))"
      by (cases "chunk_section self (idxs ! k) sh sa") (simp_all add: dump_chunks_single)
  qed
  then have ok: "\<forall>i\<in>set idxs. \<not> isl (chunk_section self i sh sa)"
    by (metis in_set_conv_nth sum.disc(2))
  have texts: "texts = map (str_join [10]) (map ?sec idxs)"
    using assms(1) each by (simp add: list_eq_iff_nth_eq)
  have "\<forall>s\<in>set (map ?sec idxs). s \<noteq> [] \<longrightarrow> str_join [10] s \<noteq> []"
  proof
    fix s assume "s \<in> set (map ?sec idxs)"
    then obtain k where "k < length idxs" "s = ?sec (idxs ! k)"
      by (auto simp add: in_set_conv_nth)
    with each[of k] show "s \<noteq> [] \<longrightarrow> str_join [10] s \<noteq> []"
      using chunk_section_text by blast
  qed
  then have "str_join [10] (concat (map ?sec idxs)) =
             str_join [10] (filter (\<lambda>t. t \<noteq> []) texts)"
    unfolding texts by (rule str_join_concat)
  with ok show ?thesis by (simp add: dump_chunks_Some)
qed

lemma dump_reader_length: "int (length (chunks dump_reader)) = 3"
  by (simp add: dump_reader_def)

lemma dump_reader_nth:
  "empty_chunk = chunks dump_reader ! nat 0"
  "chunk16 = chunks dump_reader ! nat 1"
  "chunk17 = chunks dump_reader ! nat 2"
  by (simp_all add: dump_reader_def)

lemma dump_reader_payloads:
  "data empty_chunk = []"
  "length (data chunk16) = 16"
  "length (data chunk17) = 17"
  by (simp_all add: empty_chunk_def chunk16_def chunk17_def payload16_def)

lemma dump_reader_header_lines:
  "header_line 0 empty_chunk = Inr (str ''Chunk [0] Type: FUJI, Length: 0, Aux: 0'')"
  "header_line 1 chunk16 = Inr (str ''Chunk [1] Type: data, Length: 16, Aux: 0'')"
  "header_line 2 chunk17 = Inr (str ''Chunk [2] Type: data, Length: 17, Aux: 0'')"
  by code_simp+

lemma dump_reader_rows:
  "dump_line 0 (data chunk16) True True =
     str ''0000: 41 42 43 44 45 46 47 48 49 4a 4b 4c 4d 4e 4f 50  | ABCDEFGHIJKLMNOP''"
  "dump_line 0 (take 16 (data chunk17)) True True =
     str ''0000: 41 42 43 44 45 46 47 48 49 4a 4b 4c 4d 4e 4f 50  | ABCDEFGHIJKLMNOP''"
  "dump_line 16 [data chunk17 ! 16] True True =
     str ''0010: 7f                                               | .''"
  by code_simp+

lemma rule_line:
  "replicate 80 (of_char CHR ''-'') =
     str ''--------------------------------------------------------------------------------''"
  by code_simp

lemma dump_reader_texts:
  "dump_chunks dump_reader (Some [0]) True True = Inr dump_text0"
  "dump_chunks dump_reader (Some [1]) True True = Inr dump_text1"
  "dump_chunks dump_reader (Some [7]) True True = Inr []"
  by code_simp+

lemma one_chunk_below_limit: "int (length (chunks tape_reader)) \<le> 10 ^ int_max_str_digits"
proof -
  have "(1 :: int) \<le> 10 ^ int_max_str_digits" by (rule one_le_power) simp
  then show ?thesis by (simp add: tape_reader_def)
qed

text \<open>
  Claim C9. For a selected index in range whose header line can be written: an empty
  payload gives the text of the header line, the rule, the marker \<open>(empty)\<close> and the
  blank line, each ended by a line feed, with no row; a payload of 16 bytes gives
  exactly one row, of all 16 bytes; a payload of 17 bytes gives exactly two rows, of the
  first 16 bytes at offset 0 and of the last byte at offset 16. With \<open>show_ascii\<close> the row
  ends with the ASCII part, which has one character for each byte: the byte's own
  character if and only if its value is from 0x20 to 0x7E, and a full stop otherwise. An
  index below 0 or not below the number of chunks adds nothing to the text, and a
  selection of such indices gives the empty text and no exception. For a parsed chunk
  sequence of at most \<open>10 ^ 4300\<close> chunks every header line can be written and
  \<open>dump_chunks\<close> returns a text for every selection.
\<close>

theorem dump_chunks_formatting:
  "(0 \<le> idx \<and> idx < int (length (chunks self)) \<and> c = chunks self ! nat idx \<and>
    header_line idx c = Inr h \<longrightarrow>
      (data c = [] \<longrightarrow>
         dump_chunks self (Some [idx]) show_hex show_ascii =
           Inr (h @ [10] @ replicate 80 (of_char CHR ''-'') @ [10] @
                str ''  (empty)'' @ [10])) \<and>
      (length (data c) = 16 \<longrightarrow>
         dump_chunks self (Some [idx]) show_hex show_ascii =
           Inr (h @ [10] @ replicate 80 (of_char CHR ''-'') @ [10] @
                dump_line 0 (data c) show_hex show_ascii @ [10])) \<and>
      (length (data c) = 17 \<longrightarrow>
         dump_chunks self (Some [idx]) show_hex show_ascii =
           Inr (h @ [10] @ replicate 80 (of_char CHR ''-'') @ [10] @
                dump_line 0 (take 16 (data c)) show_hex show_ascii @ [10] @
                dump_line 16 [data c ! 16] show_hex show_ascii @ [10]))) \<and>
   dump_line offset ld False True = format_x 4 offset @ str '': '' @ ascii_part ld \<and>
   dump_line offset ld True True =
     format_x 4 offset @ str '': '' @ hex_part ld @ str '' | '' @ ascii_part ld \<and>
   length (ascii_part ld) = length ld \<and>
   (i < length ld \<longrightarrow>
      ascii_part ld ! i =
        (if 0x20 \<le> ld ! i \<and> ld ! i \<le> 0x7E then unat (ld ! i) else of_char CHR ''.'') \<and>
      (ascii_part ld ! i = unat (ld ! i) \<longleftrightarrow> 0x20 \<le> ld ! i \<and> ld ! i \<le> 0x7E)) \<and>
   (skipped < 0 \<or> int (length (chunks self)) \<le> skipped \<longrightarrow>
      dump_chunks self (Some (before @ skipped # after)) show_hex show_ascii =
      dump_chunks self (Some (before @ after)) show_hex show_ascii) \<and>
   ((\<forall>i\<in>set idxs. i < 0 \<or> int (length (chunks self)) \<le> i) \<longrightarrow>
      dump_chunks self (Some idxs) show_hex show_ascii = Inr []) \<and>
   (decode B = Inr self \<and> int (length (chunks self)) \<le> 10 ^ int_max_str_digits \<longrightarrow>
      (\<exists>text. dump_chunks self chunk_indices show_hex show_ascii = Inr text) \<and>
      (0 \<le> idx \<and> idx < int (length (chunks self)) \<longrightarrow>
         (\<exists>h. header_line idx (chunks self ! nat idx) = Inr h)))"
proof -
  have rows: "0 \<le> idx \<and> idx < int (length (chunks self)) \<and> c = chunks self ! nat idx \<and>
    header_line idx c = Inr h \<longrightarrow>
      (data c = [] \<longrightarrow>
         dump_chunks self (Some [idx]) show_hex show_ascii =
           Inr (h @ [10] @ replicate 80 (of_char CHR ''-'') @ [10] @
                str ''  (empty)'' @ [10])) \<and>
      (length (data c) = 16 \<longrightarrow>
         dump_chunks self (Some [idx]) show_hex show_ascii =
           Inr (h @ [10] @ replicate 80 (of_char CHR ''-'') @ [10] @
                dump_line 0 (data c) show_hex show_ascii @ [10])) \<and>
      (length (data c) = 17 \<longrightarrow>
         dump_chunks self (Some [idx]) show_hex show_ascii =
           Inr (h @ [10] @ replicate 80 (of_char CHR ''-'') @ [10] @
                dump_line 0 (take 16 (data c)) show_hex show_ascii @ [10] @
                dump_line 16 [data c ! 16] show_hex show_ascii @ [10]))"
    by (auto simp add: dump_chunks_single chunk_section_in_range dump_rows_16 dump_rows_17)
  have nth: "i < length ld \<longrightarrow>
      ascii_part ld ! i =
        (if 0x20 \<le> ld ! i \<and> ld ! i \<le> 0x7E then unat (ld ! i) else of_char CHR ''.'') \<and>
      (ascii_part ld ! i = unat (ld ! i) \<longleftrightarrow> 0x20 \<le> ld ! i \<and> ld ! i \<le> 0x7E)"
  proof
    assume i: "i < length ld"
    have "unat (ld ! i) = 46 \<Longrightarrow> 0x20 \<le> ld ! i \<and> ld ! i \<le> 0x7E"
      by (simp add: word_le_nat_alt)
    then show "ascii_part ld ! i =
        (if 0x20 \<le> ld ! i \<and> ld ! i \<le> 0x7E then unat (ld ! i) else of_char CHR ''.'') \<and>
      (ascii_part ld ! i = unat (ld ! i) \<longleftrightarrow> 0x20 \<le> ld ! i \<and> ld ! i \<le> 0x7E)"
      using ascii_part_nth[OF i] by auto
  qed
  have skip: "skipped < 0 \<or> int (length (chunks self)) \<le> skipped \<longrightarrow>
      dump_chunks self (Some (before @ skipped # after)) show_hex show_ascii =
      dump_chunks self (Some (before @ after)) show_hex show_ascii"
    using dump_chunks_skip by blast
  have none: "(\<forall>i\<in>set idxs. i < 0 \<or> int (length (chunks self)) \<le> i) \<longrightarrow>
      dump_chunks self (Some idxs) show_hex show_ascii = Inr []"
    using dump_chunks_out_of_range by blast
  have parsed: "decode B = Inr self \<and> int (length (chunks self)) \<le> 10 ^ int_max_str_digits \<longrightarrow>
      (\<exists>text. dump_chunks self chunk_indices show_hex show_ascii = Inr text) \<and>
      (0 \<le> idx \<and> idx < int (length (chunks self)) \<longrightarrow>
         (\<exists>h. header_line idx (chunks self ! nat idx) = Inr h))"
  proof (intro impI conjI)
    assume a: "decode B = Inr self \<and> int (length (chunks self)) \<le> 10 ^ int_max_str_digits"
    then show "\<exists>text. dump_chunks self chunk_indices show_hex show_ascii = Inr text"
      using dump_chunks_decoded by blast
    assume "0 \<le> idx \<and> idx < int (length (chunks self))"
    then have r: "0 \<le> idx" "idx < int (length (chunks self))" by simp_all
    then have "nat idx < length (chunks self)" by simp
    then have "chunks self ! nat idx \<in> set (chunks self)" by (rule nth_mem)
    with a have "wf_chunk (chunks self ! nat idx)" using decode_wf_chunks by blast
    moreover from r(2) a have "idx < 10 ^ int_max_str_digits" by linarith
    ultimately show "\<exists>h. header_line idx (chunks self ! nat idx) = Inr h"
      using header_line_Inr r(1) by blast
  qed
  have len: "length (ascii_part ld) = length ld" by (simp add: ascii_part_def)
  from rows nth skip none parsed len dump_line_ascii_only dump_line_hex_ascii
  show ?thesis by blast
qed

text \<open>
  Claim C9 at the reader of three chunks, with both columns shown: the three texts, the
  ASCII characters of the bytes 0x7E and 0x7F, selections with indices out of range, and
  the parsed stream of one chunk.
\<close>

theorem dump_chunks_formatting_witness:
  "dump_chunks dump_reader (Some [0]) True True = Inr dump_text0 \<and>
   dump_chunks dump_reader (Some [1]) True True = Inr dump_text1 \<and>
   dump_chunks dump_reader (Some [2]) True True = Inr dump_text2 \<and>
   ascii_part [0x7E, 0x7F] ! 0 = of_char CHR ''~'' \<and>
   ascii_part [0x7E, 0x7F] ! 1 = of_char CHR ''.'' \<and>
   dump_chunks dump_reader (Some [7, 1]) True True = Inr dump_text1 \<and>
   dump_chunks dump_reader (Some [1, - 1]) True True = Inr dump_text1 \<and>
   dump_chunks dump_reader (Some [7, - 1]) True True = Inr [] \<and>
   decode (tape_wire @ partial_header) = Inr tape_reader \<and>
   (\<exists>text. dump_chunks tape_reader None True True = Inr text) \<and>
   (\<exists>h. header_line 0 (chunks tape_reader ! nat 0) = Inr h)"
proof -
  note t = dump_chunks_formatting[where self = dump_reader and show_hex = True
      and show_ascii = True and ld = "[0x7E, 0x7F]"]
  have in_range:
    "(0::int) \<le> 0 \<and> 0 < int (length (chunks dump_reader)) \<and>
       empty_chunk = chunks dump_reader ! nat 0 \<and>
       header_line 0 empty_chunk = Inr (str ''Chunk [0] Type: FUJI, Length: 0, Aux: 0'')"
    "(0::int) \<le> 1 \<and> 1 < int (length (chunks dump_reader)) \<and>
       chunk16 = chunks dump_reader ! nat 1 \<and>
       header_line 1 chunk16 = Inr (str ''Chunk [1] Type: data, Length: 16, Aux: 0'')"
    "(0::int) \<le> 2 \<and> 2 < int (length (chunks dump_reader)) \<and>
       chunk17 = chunks dump_reader ! nat 2 \<and>
       header_line 2 chunk17 = Inr (str ''Chunk [2] Type: data, Length: 17, Aux: 0'')"
    using dump_reader_nth dump_reader_header_lines by (simp_all only: dump_reader_length) simp_all
  have out_of_range:
    "(7::int) < 0 \<or> int (length (chunks dump_reader)) \<le> 7"
    "(- 1::int) < 0 \<or> int (length (chunks dump_reader)) \<le> - 1"
    "\<forall>i\<in>set [7, - 1 :: int]. i < 0 \<or> int (length (chunks dump_reader)) \<le> i"
    by (simp_all add: dump_reader_length)
  have c0: "dump_chunks dump_reader (Some [0]) True True =
     Inr (str ''Chunk [0] Type: FUJI, Length: 0, Aux: 0'' @ [10] @
          replicate 80 (of_char CHR ''-'') @ [10] @ str ''  (empty)'' @ [10])"
    using t[where idx = 0 and c = empty_chunk
        and h = "str ''Chunk [0] Type: FUJI, Length: 0, Aux: 0''"] in_range(1)
      dump_reader_payloads(1)
    by blast
  have c1: "dump_chunks dump_reader (Some [1]) True True =
     Inr (str ''Chunk [1] Type: data, Length: 16, Aux: 0'' @ [10] @
          replicate 80 (of_char CHR ''-'') @ [10] @
          dump_line 0 (data chunk16) True True @ [10])"
    using t[where idx = 1 and c = chunk16
        and h = "str ''Chunk [1] Type: data, Length: 16, Aux: 0''"] in_range(2)
      dump_reader_payloads(2)
    by blast
  have c2: "dump_chunks dump_reader (Some [2]) True True =
     Inr (str ''Chunk [2] Type: data, Length: 17, Aux: 0'' @ [10] @
          replicate 80 (of_char CHR ''-'') @ [10] @
          dump_line 0 (take 16 (data chunk17)) True True @ [10] @
          dump_line 16 [data chunk17 ! 16] True True @ [10])"
    using t[where idx = 2 and c = chunk17
        and h = "str ''Chunk [2] Type: data, Length: 17, Aux: 0''"] in_range(3)
      dump_reader_payloads(3)
    by blast
  have "0 < length [0x7E, 0x7F :: byte]" by simp
  with t[where i = 0] have "ascii_part [0x7E, 0x7F] ! 0 =
        (if 0x20 \<le> [0x7E, 0x7F :: byte] ! 0 \<and> [0x7E, 0x7F :: byte] ! 0 \<le> 0x7E
         then unat ([0x7E, 0x7F :: byte] ! 0) else of_char CHR ''.'')"
    by blast
  then have a0: "ascii_part [0x7E, 0x7F] ! 0 = of_char CHR ''~''" by simp
  have "1 < length [0x7E, 0x7F :: byte]" by simp
  with t[where i = 1] have "ascii_part [0x7E, 0x7F] ! 1 =
        (if 0x20 \<le> [0x7E, 0x7F :: byte] ! 1 \<and> [0x7E, 0x7F :: byte] ! 1 \<le> 0x7E
         then unat ([0x7E, 0x7F :: byte] ! 1) else of_char CHR ''.'')"
    by blast
  then have a1: "ascii_part [0x7E, 0x7F] ! 1 = of_char CHR ''.''" by simp
  have s1: "dump_chunks dump_reader (Some ([] @ 7 # [1])) True True =
     dump_chunks dump_reader (Some ([] @ [1])) True True"
    using t[where skipped = 7 and before = "[]" and after = "[1]"] out_of_range(1)
    by blast
  have s2: "dump_chunks dump_reader (Some ([1] @ - 1 # [])) True True =
     dump_chunks dump_reader (Some ([1] @ [])) True True"
    using t[where skipped = "- 1" and before = "[1]" and after = "[]"] out_of_range(2)
    by blast
  have s3: "dump_chunks dump_reader (Some [7, - 1]) True True = Inr []"
    using t[where idxs = "[7, - 1]"] out_of_range(3) by blast
  have c0': "dump_chunks dump_reader (Some [0]) True True = Inr dump_text0"
    by (simp only: c0 rule_line dump_text0_def)
  have c1': "dump_chunks dump_reader (Some [1]) True True = Inr dump_text1"
    by (simp only: c1 dump_reader_rows rule_line dump_text1_def)
  have c2': "dump_chunks dump_reader (Some [2]) True True = Inr dump_text2"
    by (simp only: c2 dump_reader_rows rule_line dump_text2_def)
  have s1': "dump_chunks dump_reader (Some [7, 1]) True True = Inr dump_text1"
    using s1 by (simp only: append_Nil c1')
  have s2': "dump_chunks dump_reader (Some [1, - 1]) True True = Inr dump_text1"
    using s2 by (simp only: append_Cons append_Nil c1')
  have d: "decode (tape_wire @ partial_header) = Inr tape_reader \<and>
           int (length (chunks tape_reader)) \<le> 10 ^ int_max_str_digits"
    using decode_tape_partial_header one_chunk_below_limit by simp
  have r: "(0::int) \<le> 0 \<and> 0 < int (length (chunks tape_reader))"
    by (simp add: tape_reader_def)
  from dump_chunks_formatting[where self = tape_reader and B = "tape_wire @ partial_header"
      and chunk_indices = None and show_hex = True and show_ascii = True and idx = 0] d r
  have p: "(\<exists>text. dump_chunks tape_reader None True True = Inr text) \<and>
           (\<exists>h. header_line 0 (chunks tape_reader ! nat 0) = Inr h)"
    by blast
  from c0' c1' c2' a0 a1 s1' s2' s3 d p show ?thesis by blast
qed

text \<open>
  Claim C10. For an explicit list of indices, the text is the texts for its indices one
  by one, in the order of the list and joined by a line feed, an index out of range
  giving no text and an index that occurs twice giving its text twice: the list is
  neither sorted nor deduplicated. For a parsed chunk sequence of at most \<open>10 ^ 4300\<close>
  chunks every index of the list has such a text. The text of an index in range starts
  with the header line of that index. Without a list the indices are those of all chunks
  in ascending order.
\<close>

theorem dump_chunks_selection_order:
  "(length texts = length idxs \<and>
    (\<forall>k<length idxs.
       dump_chunks self (Some [idxs ! k]) show_hex show_ascii = Inr (texts ! k)) \<longrightarrow>
      dump_chunks self (Some idxs) show_hex show_ascii =
        Inr (str_join [10] (filter (\<lambda>t. t \<noteq> []) texts))) \<and>
   (decode B = Inr self \<and> int (length (chunks self)) \<le> 10 ^ int_max_str_digits \<longrightarrow>
      (\<exists>texts. length texts = length idxs \<and>
         (\<forall>k<length idxs.
            dump_chunks self (Some [idxs ! k]) show_hex show_ascii = Inr (texts ! k)))) \<and>
   (0 \<le> idx \<and> idx < int (length (chunks self)) \<and>
    header_line idx (chunks self ! nat idx) = Inr h \<longrightarrow>
      (\<exists>rest. dump_chunks self (Some [idx]) show_hex show_ascii = Inr (h @ 10 # rest))) \<and>
   dump_chunks self None show_hex show_ascii =
     dump_chunks self (Some (map int [0..<length (chunks self)])) show_hex show_ascii"
proof -
  have a: "length texts = length idxs \<and>
    (\<forall>k<length idxs.
       dump_chunks self (Some [idxs ! k]) show_hex show_ascii = Inr (texts ! k)) \<longrightarrow>
      dump_chunks self (Some idxs) show_hex show_ascii =
        Inr (str_join [10] (filter (\<lambda>t. t \<noteq> []) texts))"
    using dump_chunks_sections by blast
  have b: "decode B = Inr self \<and> int (length (chunks self)) \<le> 10 ^ int_max_str_digits \<longrightarrow>
      (\<exists>texts. length texts = length idxs \<and>
         (\<forall>k<length idxs.
            dump_chunks self (Some [idxs ! k]) show_hex show_ascii = Inr (texts ! k)))"
  proof
    assume d: "decode B = Inr self \<and> int (length (chunks self)) \<le> 10 ^ int_max_str_digits"
    let ?texts = "map (\<lambda>i. projr (dump_chunks self (Some [i]) show_hex show_ascii)) idxs"
    have "\<And>i. \<exists>text. dump_chunks self (Some [i]) show_hex show_ascii = Inr text"
      using d dump_chunks_decoded by blast
    then have "\<forall>k<length idxs.
            dump_chunks self (Some [idxs ! k]) show_hex show_ascii = Inr (?texts ! k)"
      by (metis nth_map sum.sel(2))
    moreover have "length ?texts = length idxs" by simp
    ultimately show "\<exists>texts. length texts = length idxs \<and>
         (\<forall>k<length idxs.
            dump_chunks self (Some [idxs ! k]) show_hex show_ascii = Inr (texts ! k))"
      by blast
  qed
  have c: "0 \<le> idx \<and> idx < int (length (chunks self)) \<and>
    header_line idx (chunks self ! nat idx) = Inr h \<longrightarrow>
      (\<exists>rest. dump_chunks self (Some [idx]) show_hex show_ascii = Inr (h @ 10 # rest))"
    by (auto simp add: dump_chunks_single chunk_section_in_range)
  have e: "dump_chunks self None show_hex show_ascii =
     dump_chunks self (Some (map int [0..<length (chunks self)])) show_hex show_ascii"
    by (simp add: dump_chunks_def dump_output_lines_def)
  from a b c e show ?thesis by blast
qed

text \<open>
  Claim C10 at the reader of three chunks: the selection 1, 0, 1 gives the text of
  chunk 1, then that of chunk 0, then that of chunk 1 again, and the selection 1, 7, 0
  gives the text of chunk 1 and that of chunk 0.
\<close>

theorem dump_chunks_selection_order_witness:
  "dump_chunks dump_reader (Some [1, 0, 1]) True True =
     Inr (dump_text1 @ [10] @ dump_text0 @ [10] @ dump_text1) \<and>
   dump_chunks dump_reader (Some [1, 7, 0]) True True =
     Inr (dump_text1 @ [10] @ dump_text0) \<and>
   (\<exists>rest. dump_chunks dump_reader (Some [1]) True True =
             Inr (str ''Chunk [1] Type: data, Length: 16, Aux: 0'' @ 10 # rest))"
proof -
  note t = dump_chunks_selection_order[where self = dump_reader and show_hex = True
      and show_ascii = True]
  have ne: "dump_text0 \<noteq> []" "dump_text1 \<noteq> []"
    by (simp_all add: dump_text0_def dump_text1_def str_def)
  have h1: "length [dump_text1, dump_text0, dump_text1] = length [1, 0, 1 :: int] \<and>
    (\<forall>k<length [1, 0, 1 :: int].
       dump_chunks dump_reader (Some [[1, 0, 1] ! k]) True True =
         Inr ([dump_text1, dump_text0, dump_text1] ! k))"
  proof (intro conjI allI impI)
    show "length [dump_text1, dump_text0, dump_text1] = length [1, 0, 1 :: int]" by simp
    fix k assume "k < length [1, 0, 1 :: int]"
    then have "k = 0 \<or> k = 1 \<or> k = 2" by auto
    then show "dump_chunks dump_reader (Some [[1, 0, 1] ! k]) True True =
         Inr ([dump_text1, dump_text0, dump_text1] ! k)"
      by (elim disjE) (simp_all add: dump_reader_texts)
  qed
  have h2: "length [dump_text1, [], dump_text0] = length [1, 7, 0 :: int] \<and>
    (\<forall>k<length [1, 7, 0 :: int].
       dump_chunks dump_reader (Some [[1, 7, 0] ! k]) True True =
         Inr ([dump_text1, [], dump_text0] ! k))"
  proof (intro conjI allI impI)
    show "length [dump_text1, [], dump_text0] = length [1, 7, 0 :: int]" by simp
    fix k assume "k < length [1, 7, 0 :: int]"
    then have "k = 0 \<or> k = 1 \<or> k = 2" by auto
    then show "dump_chunks dump_reader (Some [[1, 7, 0] ! k]) True True =
         Inr ([dump_text1, [], dump_text0] ! k)"
      by (elim disjE) (simp_all add: dump_reader_texts)
  qed
  from t[where idxs = "[1, 0, 1]" and texts = "[dump_text1, dump_text0, dump_text1]"] h1
  have "dump_chunks dump_reader (Some [1, 0, 1]) True True =
          Inr (str_join [10] (filter (\<lambda>t. t \<noteq> []) [dump_text1, dump_text0, dump_text1]))"
    by blast
  then have a: "dump_chunks dump_reader (Some [1, 0, 1]) True True =
     Inr (dump_text1 @ [10] @ dump_text0 @ [10] @ dump_text1)"
    using ne by simp
  from t[where idxs = "[1, 7, 0]" and texts = "[dump_text1, [], dump_text0]"] h2
  have "dump_chunks dump_reader (Some [1, 7, 0]) True True =
          Inr (str_join [10] (filter (\<lambda>t. t \<noteq> []) [dump_text1, [], dump_text0]))"
    by blast
  then have b: "dump_chunks dump_reader (Some [1, 7, 0]) True True =
     Inr (dump_text1 @ [10] @ dump_text0)"
    using ne by simp
  have "(0::int) \<le> 1 \<and> 1 < int (length (chunks dump_reader)) \<and>
        header_line 1 (chunks dump_reader ! nat 1) =
          Inr (str ''Chunk [1] Type: data, Length: 16, Aux: 0'')"
    using dump_reader_header_lines(2) by (simp only: dump_reader_length dump_reader_nth[symmetric]) simp
  with t[where idx = 1 and h = "str ''Chunk [1] Type: data, Length: 16, Aux: 0''"]
  have c: "\<exists>rest. dump_chunks dump_reader (Some [1]) True True =
             Inr (str ''Chunk [1] Type: data, Length: 16, Aux: 0'' @ 10 # rest)"
    by blast
  from a b c show ?thesis by blast
qed

section \<open>Selection specifications\<close>

lemma digit_char: "n < 10 \<Longrightarrow> (of_char (''0123456789'' ! n) :: nat) = 48 + n"
proof -
  assume n: "n < 10"
  have "map (\<lambda>k. of_char (''0123456789'' ! k) :: nat) [0..<10] = map (\<lambda>k. 48 + k) [0..<10]"
    by code_simp
  then have "map (\<lambda>k. of_char (''0123456789'' ! k) :: nat) [0..<10] ! n =
             map (\<lambda>k. 48 + k) [0..<10] ! n"
    by (rule arg_cong)
  with n show ?thesis by simp
qed

lemma dec_digit_is_digit: "n < 10 \<Longrightarrow> is_digit (''0123456789'' ! n)"
  by (simp add: is_digit_def digit_char)

lemma dec_digit_value: "n < 10 \<Longrightarrow> digit_value (''0123456789'' ! n) = n"
  by (simp add: digit_value_def digit_char)

lemma dec_digits_all_digits: "\<forall>c\<in>set (dec_digits n). is_digit c"
proof (induction n rule: dec_digits.induct)
  case (1 n)
  show ?case
  proof (cases "n < 10")
    case True
    then show ?thesis by (simp add: dec_digit_is_digit)
  next
    case False
    then have "dec_digits n = dec_digits (n div 10) @ [''0123456789'' ! (n mod 10)]"
      by (subst dec_digits.simps) simp
    moreover have "is_digit (''0123456789'' ! (n mod 10))"
      by (rule dec_digit_is_digit) simp
    ultimately show ?thesis using 1[OF False] by (simp del: dec_digits.simps)
  qed
qed

lemma dec_digits_not_Nil: "dec_digits n \<noteq> []"
  by (subst dec_digits.simps) simp

lemma int_digits_all_digits:
  "\<forall>c\<in>set xs. is_digit c \<Longrightarrow>
     int_digits acc xs = Some (fold (\<lambda>c a. 10 * a + digit_value c) xs acc)"
  by (induction xs arbitrary: acc) simp_all

lemma int_unsigned_all_digits:
  "\<forall>c\<in>set xs. is_digit c \<Longrightarrow> xs \<noteq> [] \<Longrightarrow>
     int_unsigned xs = Some (fold (\<lambda>c a. 10 * a + digit_value c) xs 0)"
  by (cases xs) (simp_all add: int_unsigned_def int_digits_all_digits)

lemma fold_dec_digits: "fold (\<lambda>c a. 10 * a + digit_value c) (dec_digits n) 0 = n"
proof (induction n rule: dec_digits.induct)
  case (1 n)
  show ?case
  proof (cases "n < 10")
    case True
    then show ?thesis by (simp add: dec_digit_value)
  next
    case False
    then have "dec_digits n = dec_digits (n div 10) @ [''0123456789'' ! (n mod 10)]"
      by (subst dec_digits.simps) simp
    moreover have "digit_value (''0123456789'' ! (n mod 10)) = n mod 10"
      by (rule dec_digit_value) simp
    ultimately show ?thesis using 1[OF False] by (simp del: dec_digits.simps)
  qed
qed

lemma int_unsigned_dec_digits: "int_unsigned (dec_digits n) = Some n"
  by (simp add: int_unsigned_all_digits dec_digits_all_digits dec_digits_not_Nil fold_dec_digits
      del: dec_digits.simps)

lemma is_digit_plain:
  "is_digit c \<Longrightarrow> \<not> is_space c \<and> \<not> is_int_space c \<and> c \<noteq> CHR ''-'' \<and> c \<noteq> CHR ''+'' \<and>
     c \<noteq> CHR '',''"
  by (auto simp add: is_digit_def is_space_def is_int_space_def Let_def)

lemma strip_unchanged:
  "xs \<noteq> [] \<Longrightarrow> \<not> P (hd xs) \<Longrightarrow> \<not> P (last xs) \<Longrightarrow>
     rev (dropWhile P (rev (dropWhile P xs))) = xs"
proof -
  assume a: "xs \<noteq> []" "\<not> P (hd xs)" "\<not> P (last xs)"
  then have "dropWhile P xs = xs" by (cases xs) simp_all
  moreover have "dropWhile P (rev xs) = rev xs"
    using a by (cases "rev xs") (simp_all add: last_rev[symmetric] hd_rev)
  ultimately show ?thesis by simp
qed

lemma dec_digits_longer: "10 ^ k \<le> n \<Longrightarrow> k < length (dec_digits n)"
proof (induction n arbitrary: k rule: dec_digits.induct)
  case (1 n)
  show ?case
  proof (cases "n < 10")
    case True
    have "k = 0"
    proof (rule ccontr)
      assume "k \<noteq> 0"
      then have "(10::nat) ^ 1 \<le> 10 ^ k" by (intro power_increasing) simp_all
      with 1(2) True show False by simp
    qed
    moreover from True have "dec_digits n = [''0123456789'' ! n]"
      by (subst dec_digits.simps) simp
    ultimately show ?thesis by simp
  next
    case False
    then have d: "dec_digits n = dec_digits (n div 10) @ [''0123456789'' ! (n mod 10)]"
      by (subst dec_digits.simps) simp
    show ?thesis
    proof (cases k)
      case 0
      then show ?thesis by (simp add: d del: dec_digits.simps)
    next
      case (Suc j)
      with 1(2) have "10 ^ j \<le> n div 10" by simp
      from 1(1)[OF False this] show ?thesis by (simp add: d Suc del: dec_digits.simps)
    qed
  qed
qed

lemma below_limit_digits:
  "n < 10 ^ int_max_str_digits \<longleftrightarrow> length (dec_digits n) \<le> int_max_str_digits"
proof
  assume "n < 10 ^ int_max_str_digits"
  moreover have "0 < int_max_str_digits" by (simp add: int_max_str_digits_def)
  ultimately show "length (dec_digits n) \<le> int_max_str_digits"
    by (intro length_dec_digits)
next
  assume a: "length (dec_digits n) \<le> int_max_str_digits"
  show "n < 10 ^ int_max_str_digits"
  proof (rule ccontr)
    assume "\<not> n < 10 ^ int_max_str_digits"
    then have "10 ^ int_max_str_digits \<le> n" by simp
    then have "int_max_str_digits < length (dec_digits n)" by (rule dec_digits_longer)
    with a show False by simp
  qed
qed

lemma filter_dec_digits: "filter is_digit (dec_digits n) = dec_digits n"
  using dec_digits_all_digits[of n] by (simp only: filter_True)

lemma py_int_dec_digits:
  "py_int (dec_digits n) =
     (if n < 10 ^ int_max_str_digits then Inr (int n) else Inl ValueError)"
proof -
  let ?xs = "dec_digits n"
  have ne: "?xs \<noteq> []" by (rule dec_digits_not_Nil)
  then have h: "is_digit (hd ?xs)" and l: "is_digit (last ?xs)"
    using dec_digits_all_digits[of n] by simp_all
  have s: "rev (dropWhile is_int_space (rev (dropWhile is_int_space ?xs))) = ?xs"
    using ne h l is_digit_plain by (intro strip_unchanged) blast+
  have b: "(if ?xs \<noteq> [] \<and> (hd ?xs = CHR ''-'' \<or> hd ?xs = CHR ''+'') then tl ?xs else ?xs) = ?xs"
    using h is_digit_plain[of "hd ?xs"] by simp
  have n: "(?xs \<noteq> [] \<and> hd ?xs = CHR ''-'') = False"
    using h is_digit_plain[of "hd ?xs"] by simp
  show ?thesis
    unfolding py_int_def s Let_def b n filter_dec_digits int_unsigned_dec_digits
    by (simp add: below_limit_digits del: dec_digits.simps)
qed

lemma str_strip_digits_ends:
  "xs \<noteq> [] \<Longrightarrow> is_digit (hd xs) \<Longrightarrow> is_digit (last xs) \<Longrightarrow> str_strip xs = xs"
  unfolding str_strip_def using is_digit_plain by (intro strip_unchanged) blast+

declare dec_digits.simps [simp del]

lemma py_int_error: "py_int s = Inl e \<Longrightarrow> e = ValueError"
  unfolding py_int_def Let_def by (simp split: option.splits if_splits)

lemma fold_insert_filter:
  "fold (\<lambda>i s. if P i then insert i s else s) xs S = S \<union> {i \<in> set xs. P i}"
  by (induction xs arbitrary: S) auto

lemma parts_loop_Cons:
  "parts_loop (p # ps) N S =
     (case part_range p of
        None \<Rightarrow> Inl ValueError
      | Some (a, b) \<Rightarrow> parts_loop ps N (S \<union> {i. 0 \<le> i \<and> i < N \<and> a \<le> i \<and> i \<le> b}))"
proof (cases "CHR ''-'' \<in> set (str_strip p)")
  case True
  obtain start stop where sp: "str_split_once CHR ''-'' (str_strip p) = (start, stop)"
    by (cases "str_split_once CHR ''-'' (str_strip p)")
  show ?thesis
  proof (cases "py_int (str_strip start)")
    case (Inl e)
    then have "e = ValueError" by (rule py_int_error)
    with Inl True sp show ?thesis by (simp add: part_range_def Let_def)
  next
    case a: (Inr a)
    show ?thesis
    proof (cases "py_int (str_strip stop)")
      case (Inl e)
      then have "e = ValueError" by (rule py_int_error)
      with Inl a True sp show ?thesis by (simp add: part_range_def Let_def)
    next
      case (Inr b)
      with a True sp show ?thesis
        by (simp add: part_range_def Let_def fold_insert_filter)
           (rule arg_cong[where f = "parts_loop ps N"], auto)
    qed
  qed
next
  case False
  show ?thesis
  proof (cases "py_int (str_strip p)")
    case (Inl e)
    then have "e = ValueError" by (rule py_int_error)
    with Inl False show ?thesis by (simp add: part_range_def Let_def)
  next
    case (Inr n)
    have "(if 0 \<le> n \<and> n < N then insert n S else S) =
            S \<union> {i. 0 \<le> i \<and> i < N \<and> n \<le> i \<and> i \<le> n}"
      by auto
    with Inr False show ?thesis by (simp add: part_range_def Let_def)
  qed
qed

lemma parts_loop_eq:
  "parts_loop ps N S =
     (if \<forall>p\<in>set ps. part_range p \<noteq> None
      then Inr (S \<union> {i. 0 \<le> i \<and> i < N \<and>
                       (\<exists>p\<in>set ps. \<exists>a b. part_range p = Some (a, b) \<and> a \<le> i \<and> i \<le> b)})
      else Inl ValueError)"
proof (induction ps arbitrary: S)
  case Nil
  show ?case by simp
next
  case (Cons p ps)
  show ?case
  proof (cases "part_range p")
    case None
    then show ?thesis by (simp only: parts_loop_Cons) auto
  next
    case (Some ab)
    obtain a b where ab: "ab = (a, b)" by (cases ab)
    have "parts_loop (p # ps) N S =
            parts_loop ps N (S \<union> {i. 0 \<le> i \<and> i < N \<and> a \<le> i \<and> i \<le> b})"
      using Some ab by (simp only: parts_loop_Cons) simp
    also have "\<dots> =
      (if \<forall>p\<in>set ps. part_range p \<noteq> None
       then Inr ((S \<union> {i. 0 \<le> i \<and> i < N \<and> a \<le> i \<and> i \<le> b}) \<union>
                 {i. 0 \<le> i \<and> i < N \<and>
                     (\<exists>p\<in>set ps. \<exists>a b. part_range p = Some (a, b) \<and> a \<le> i \<and> i \<le> b)})
       else Inl ValueError)"
      by (rule Cons.IH)
    also have "\<dots> =
      (if \<forall>q\<in>set (p # ps). part_range q \<noteq> None
       then Inr (S \<union> {i. 0 \<le> i \<and> i < N \<and>
                  (\<exists>q\<in>set (p # ps). \<exists>a b. part_range q = Some (a, b) \<and> a \<le> i \<and> i \<le> b)})
       else Inl ValueError)"
    proof -
      have "(S \<union> {i. 0 \<le> i \<and> i < N \<and> a \<le> i \<and> i \<le> b}) \<union>
                 {i. 0 \<le> i \<and> i < N \<and>
                     (\<exists>p\<in>set ps. \<exists>a b. part_range p = Some (a, b) \<and> a \<le> i \<and> i \<le> b)} =
            S \<union> {i. 0 \<le> i \<and> i < N \<and>
                  (\<exists>q\<in>set (p # ps). \<exists>a b. part_range q = Some (a, b) \<and> a \<le> i \<and> i \<le> b)}"
        using Some ab by auto
      moreover have "(\<forall>q\<in>set (p # ps). part_range q \<noteq> None) \<longleftrightarrow>
                     (\<forall>p\<in>set ps. part_range p \<noteq> None)"
        using Some by simp
      ultimately show ?thesis by (simp only:)
    qed
    finally show ?thesis .
  qed
qed

lemma str_split_not_Nil: "str_split sep xs \<noteq> []"
  by (induction xs) (auto split: list.splits)

lemma str_split_no_sep: "sep \<notin> set xs \<Longrightarrow> str_split sep xs = [xs]"
  by (induction xs) auto

lemma str_split_append_sep:
  "sep \<notin> set xs \<Longrightarrow> str_split sep (xs @ sep # ys) = xs # str_split sep ys"
proof (induction xs)
  case Nil
  show ?case by simp
next
  case (Cons x xs)
  then have "x \<noteq> sep" and ih: "str_split sep (xs @ sep # ys) = xs # str_split sep ys"
    by auto
  then show ?case by simp
qed

lemma dec_digits_plain:
  "c \<in> set (dec_digits n) \<Longrightarrow>
     \<not> is_space c \<and> \<not> is_int_space c \<and> c \<noteq> CHR ''-'' \<and> c \<noteq> CHR ''+'' \<and> c \<noteq> CHR '',''"
  using dec_digits_all_digits[of n] is_digit_plain by blast

lemma render_item_no_comma: "CHR '','' \<notin> set (render_item item)"
  using dec_digits_plain by (cases item) auto

lemma str_split_render_spec:
  "items \<noteq> [] \<Longrightarrow> str_split CHR '','' (render_spec items) = map render_item items"
proof (induction items rule: render_spec.induct)
  case 1
  then show ?case by simp
next
  case (2 item)
  show ?case by (simp add: str_split_no_sep render_item_no_comma)
next
  case (3 item item' items)
  then show ?case
    by (simp add: str_split_append_sep render_item_no_comma del: render_item.simps)
qed

lemma part_range_Index:
  "part_range (render_item (Index n)) =
     (if n < 10 ^ int_max_str_digits then Some (int n, int n) else None)"
proof -
  let ?xs = "dec_digits n"
  have ne: "?xs \<noteq> []" by (rule dec_digits_not_Nil)
  then have "is_digit (hd ?xs)" "is_digit (last ?xs)"
    using dec_digits_all_digits[of n] by simp_all
  with ne have s: "str_strip ?xs = ?xs" by (rule str_strip_digits_ends)
  have "CHR ''-'' \<notin> set ?xs" using dec_digits_plain by blast
  then show ?thesis by (simp add: part_range_def s py_int_dec_digits)
qed

lemma part_range_Span:
  "part_range (render_item (Span a b)) =
     (if a < 10 ^ int_max_str_digits \<and> b < 10 ^ int_max_str_digits
      then Some (int a, int b) else None)"
proof -
  let ?a = "dec_digits a" and ?b = "dec_digits b"
  let ?xs = "?a @ CHR ''-'' # ?b"
  have nea: "?a \<noteq> []" and neb: "?b \<noteq> []" by (rule dec_digits_not_Nil)+
  have ha: "is_digit (hd ?a)" "is_digit (last ?a)"
    using nea dec_digits_all_digits[of a] by simp_all
  have hb: "is_digit (hd ?b)" "is_digit (last ?b)"
    using neb dec_digits_all_digits[of b] by simp_all
  have "hd ?xs = hd ?a" "last ?xs = last ?b" using nea neb by simp_all
  with ha hb have s: "str_strip ?xs = ?xs"
    by (intro str_strip_digits_ends) simp_all
  have sa: "str_strip ?a = ?a" using nea ha by (rule str_strip_digits_ends)
  have sb: "str_strip ?b = ?b" using neb hb by (rule str_strip_digits_ends)
  have no: "\<forall>c\<in>set ?a. c \<noteq> CHR ''-''" using dec_digits_plain by blast
  have sp: "str_split_once CHR ''-'' ?xs = (?a, ?b)"
    using no by (simp add: str_split_once_def takeWhile_append2 dropWhile_append2)
  show ?thesis
    by (simp add: part_range_def s sp sa sb py_int_dec_digits)
qed

lemma finite_selected:
  "finite {i::int. 0 \<le> i \<and> i < N \<and> P i}"
  by (rule finite_subset[of _ "{0..<N}"]) auto

lemma render_item_not_Nil: "render_item item \<noteq> []"
  by (cases item) (simp_all add: dec_digits_not_Nil)

lemma render_spec_not_Nil: "items \<noteq> [] \<Longrightarrow> render_spec items \<noteq> []"
  by (induction items rule: render_spec.induct)
     (simp_all add: render_item_not_Nil del: render_item.simps)

lemma part_range_item:
  "part_range (render_item item) =
     (if item_below_limit item
      then Some (case item of Index n \<Rightarrow> (int n, int n) | Span a b \<Rightarrow> (int a, int b))
      else None)"
  by (cases item) (simp_all only: part_range_Index part_range_Span item_below_limit.simps
      selection_item.case)

lemma selected_by_items:
  assumes "\<forall>item\<in>set items. item_below_limit item"
  shows "{i. 0 \<le> i \<and> i < N \<and>
       (\<exists>p\<in>set (map render_item items).
           \<exists>a b. part_range p = Some (a, b) \<and> a \<le> i \<and> i \<le> b)} =
   {i. 0 \<le> i \<and> i < N \<and> (\<exists>item\<in>set items. i \<in> item_indices item)}"
proof -
  have "\<And>item i. item \<in> set items \<Longrightarrow>
          (\<exists>a b. part_range (render_item item) = Some (a, b) \<and> a \<le> i \<and> i \<le> b) \<longleftrightarrow>
          i \<in> item_indices item"
  proof -
    fix item :: selection_item and i :: int
    assume "item \<in> set items"
    with assms have "item_below_limit item" by blast
    then show "(\<exists>a b. part_range (render_item item) = Some (a, b) \<and> a \<le> i \<and> i \<le> b) \<longleftrightarrow>
          i \<in> item_indices item"
      by (cases item) (auto simp add: part_range_item simp del: render_item.simps)
  qed
  then show ?thesis by auto
qed

lemma parse_rendered:
  assumes "items \<noteq> []" "\<forall>item\<in>set items. item_below_limit item"
  shows "parse_chunk_selection (render_spec items) N =
           Inr (sorted_list_of_set
                  {i. 0 \<le> i \<and> i < N \<and> (\<exists>item\<in>set items. i \<in> item_indices item)})"
proof -
  have all: "\<forall>p\<in>set (map render_item items). part_range p \<noteq> None"
  proof
    fix p assume "p \<in> set (map render_item items)"
    then obtain item where "p = render_item item" "item \<in> set items" by auto
    with assms(2) show "part_range p \<noteq> None"
      by (simp add: part_range_item del: render_item.simps)
  qed
  have "parts_loop (str_split CHR '','' (render_spec items)) N {} =
          Inr {i. 0 \<le> i \<and> i < N \<and> (\<exists>item\<in>set items. i \<in> item_indices item)}"
    unfolding str_split_render_spec[OF assms(1)] parts_loop_eq
    using all by (simp only: selected_by_items[OF assms(2)] Un_empty_left) simp
  then show ?thesis
    using render_spec_not_Nil[OF assms(1)] by (simp add: parse_chunk_selection_def)
qed

lemma parse_result_sorted:
  assumes "parse_chunk_selection spec N = Inr xs"
  shows "sorted xs \<and> distinct xs \<and> (\<forall>i\<in>set xs. 0 \<le> i \<and> i < N)"
proof (cases "spec = []")
  case True
  with assms have "xs = [0..N - 1]" by (simp add: parse_chunk_selection_def)
  then show ?thesis by auto
next
  case False
  let ?S = "{i. 0 \<le> i \<and> i < N \<and>
               (\<exists>p\<in>set (str_split CHR '','' spec).
                   \<exists>a b. part_range p = Some (a, b) \<and> a \<le> i \<and> i \<le> b)}"
  from assms False have "xs = sorted_list_of_set ?S"
    by (auto simp add: parse_chunk_selection_def parts_loop_eq split: if_splits)
  moreover have "finite ?S" by (rule finite_selected)
  ultimately show ?thesis by auto
qed

lemma parse_malformed:
  assumes "spec \<noteq> []" "\<exists>part\<in>set (str_split CHR '','' spec). part_range part = None"
  shows "parse_chunk_selection spec N = Inl ValueError"
proof -
  from assms(2) have "\<not> (\<forall>p\<in>set (str_split CHR '','' spec). part_range p \<noteq> None)"
    by blast
  then have "parts_loop (str_split CHR '','' spec) N {} = Inl ValueError"
    unfolding parts_loop_eq by (rule if_not_P)
  then show ?thesis using assms(1) by (simp add: parse_chunk_selection_def)
qed

lemma parse_rendered_over_limit:
  assumes "items \<noteq> []" "\<exists>item\<in>set items. \<not> item_below_limit item"
  shows "parse_chunk_selection (render_spec items) N = Inl ValueError"
proof -
  from assms(2) obtain item where "item \<in> set items" "\<not> item_below_limit item" by blast
  then have "render_item item \<in> set (map render_item items)"
    and "part_range (render_item item) = None"
    by (simp_all add: part_range_item del: render_item.simps)
  then have "\<exists>part\<in>set (str_split CHR '','' (render_spec items)). part_range part = None"
    unfolding str_split_render_spec[OF assms(1)] by blast
  with render_spec_not_Nil[OF assms(1)] show ?thesis by (rule parse_malformed)
qed

lemma dec_digits_power: "dec_digits (10 ^ k) = CHR ''1'' # replicate k CHR ''0''"
proof (induction k)
  case 0
  show ?case by (simp add: dec_digits.simps)
next
  case (Suc k)
  have "\<not> (10::nat) ^ Suc k < 10" by simp
  then have "dec_digits (10 ^ Suc k) =
               dec_digits (10 ^ Suc k div 10) @ [''0123456789'' ! (10 ^ Suc k mod 10)]"
    by (subst dec_digits.simps) (simp only: if_False)
  then show ?case by (simp add: Suc replicate_append_same)
qed

lemma small_item_below_limit: "n < 10 \<Longrightarrow> n < (10 :: nat) ^ int_max_str_digits"
proof -
  assume "n < 10"
  moreover have "(10 :: nat) ^ 1 \<le> 10 ^ int_max_str_digits"
    by (rule power_increasing) (simp_all add: int_max_str_digits_def)
  ultimately show ?thesis by simp
qed

text \<open>
  Claim C6, as worded, at the specification of one integer of one digit more than the
  limit, the digit 1 followed by \<open>int_max_str_digits\<close> zeros, with 20 chunks: the only
  index that the specification refers to is not below 20, so that the claim gives the
  empty list, but \<open>int\<close> raises \<open>ValueError\<close> and so does \<open>parse_chunk_selection\<close>.
\<close>

theorem parse_chunk_selection_digit_limit_counterexample:
  "int_max_str_digits = 4300 \<and>
   render_spec [Index (10 ^ int_max_str_digits)] =
     CHR ''1'' # replicate int_max_str_digits CHR ''0'' \<and>
   item_indices (Index (10 ^ int_max_str_digits)) = {int (10 ^ int_max_str_digits)} \<and>
   \<not> int (10 ^ int_max_str_digits) < 20 \<and>
   parse_chunk_selection (CHR ''1'' # replicate int_max_str_digits CHR ''0'') 20 =
     Inl ValueError \<and>
   parse_chunk_selection (CHR ''1'' # replicate int_max_str_digits CHR ''0'') 20 \<noteq> Inr []"
proof -
  have r: "render_spec [Index (10 ^ int_max_str_digits)] =
             CHR ''1'' # replicate int_max_str_digits CHR ''0''"
    by (simp add: dec_digits_power)
  have "(10 :: nat) ^ 2 \<le> 10 ^ int_max_str_digits"
    by (rule power_increasing) (simp_all add: int_max_str_digits_def)
  then have "(20 :: nat) < 10 ^ int_max_str_digits" by simp
  then have "(20 :: int) < int (10 ^ int_max_str_digits)"
    by (simp only: of_nat_less_iff[symmetric, where 'a = int] of_nat_numeral)
  then have e: "item_indices (Index (10 ^ int_max_str_digits)) = {int (10 ^ int_max_str_digits)} \<and>
                \<not> int (10 ^ int_max_str_digits) < 20"
    by (simp only: item_indices.simps) simp
  have "[Index (10 ^ int_max_str_digits)] \<noteq> []" by simp
  moreover have "\<exists>item\<in>set [Index (10 ^ int_max_str_digits)]. \<not> item_below_limit item"
    by simp
  ultimately have "parse_chunk_selection (render_spec [Index (10 ^ int_max_str_digits)]) 20 =
      Inl ValueError"
    by (rule parse_rendered_over_limit)
  then have p: "parse_chunk_selection (CHR ''1'' # replicate int_max_str_digits CHR ''0'') 20 =
      Inl ValueError"
    by (simp only: r)
  have m: "int_max_str_digits = 4300" by (simp add: int_max_str_digits_def)
  have q: "parse_chunk_selection (CHR ''1'' # replicate int_max_str_digits CHR ''0'') 20 \<noteq>
      Inr []"
    by (simp only: p) simp
  from m r e p q show ?thesis by blast
qed

text \<open>
  Claim C6, with the limit on the digits. An empty specification gives all indices from
  0 to \<open>N - 1\<close>. A specification of comma-separated single non-negative integers and
  inclusive ranges, each number below \<open>10 ^ int_max_str_digits\<close>, gives the sorted list
  of the set of the indices \<open>i\<close> with \<open>0 \<le> i < N\<close> that some part refers to: indices out
  of range are dropped and a range whose start is above its end adds nothing. Such a
  specification with a number that is not below \<open>10 ^ int_max_str_digits\<close> raises
  \<open>ValueError\<close>. Every list returned is ascending, without duplicates and within range.
  The four examples of the specification hold, and a specification with a part that
  is neither an integer nor two integers around a hyphen raises \<open>ValueError\<close>.
\<close>

theorem parse_chunk_selection_within_digit_limit:
  "parse_chunk_selection [] N = Inr [0..N - 1] \<and>
   (items \<noteq> [] \<and> (\<forall>item\<in>set items. item_below_limit item) \<longrightarrow>
      parse_chunk_selection (render_spec items) N =
        Inr (sorted_list_of_set
               {i. 0 \<le> i \<and> i < N \<and> (\<exists>item\<in>set items. i \<in> item_indices item)})) \<and>
   (items \<noteq> [] \<and> (\<exists>item\<in>set items. \<not> item_below_limit item) \<longrightarrow>
      parse_chunk_selection (render_spec items) N = Inl ValueError) \<and>
   (parse_chunk_selection spec N = Inr xs \<longrightarrow>
      sorted xs \<and> distinct xs \<and> (\<forall>i\<in>set xs. 0 \<le> i \<and> i < N)) \<and>
   parse_chunk_selection ''1,3-5'' 10 = Inr [1, 3, 4, 5] \<and>
   parse_chunk_selection ''0-2,2-4'' 10 = Inr [0, 1, 2, 3, 4] \<and>
   parse_chunk_selection ''5-3'' 10 = Inr [] \<and>
   parse_chunk_selection ''abc'' 10 = Inl ValueError \<and>
   (spec \<noteq> [] \<and> (\<exists>part\<in>set (str_split CHR '','' spec). part_range part = None) \<longrightarrow>
      parse_chunk_selection spec N = Inl ValueError)"
proof -
  have e0: "parse_chunk_selection [] N = Inr [0..N - 1]"
    by (simp add: parse_chunk_selection_def)
  have e1: "parse_chunk_selection ''1,3-5'' 10 = Inr [1, 3, 4, 5]" by code_simp
  have e2: "parse_chunk_selection ''0-2,2-4'' 10 = Inr [0, 1, 2, 3, 4]" by code_simp
  have e3: "parse_chunk_selection ''5-3'' 10 = Inr []" by code_simp
  have e4: "parse_chunk_selection ''abc'' 10 = Inl ValueError" by code_simp
  from e0 e1 e2 e3 e4 parse_rendered[of items N] parse_rendered_over_limit[of items N]
    parse_result_sorted[of spec N xs] parse_malformed[of spec N]
  show ?thesis by blast
qed

text \<open>
  Claim C6 at the specification of the index 1 and the range from 3 to 5 with ten
  chunks, at the specification of the index 1 and an integer of one digit more than the
  limit with seven chunks, and at the malformed specification \<open>abc\<close>.
\<close>

theorem parse_chunk_selection_within_digit_limit_witness:
  "render_spec [Index 1, Span 3 5] = ''1,3-5'' \<and>
   item_below_limit (Index 1) \<and> item_below_limit (Span 3 5) \<and>
   parse_chunk_selection ''1,3-5'' 10 =
     Inr (sorted_list_of_set
            {i. 0 \<le> i \<and> i < 10 \<and> (i \<in> item_indices (Index 1) \<or> i \<in> item_indices (Span 3 5))}) \<and>
   parse_chunk_selection ''1,3-5'' 10 = Inr [1, 3, 4, 5] \<and>
   sorted [1, 3, 4, 5 :: int] \<and> distinct [1, 3, 4, 5 :: int] \<and>
   \<not> item_below_limit (Index (10 ^ int_max_str_digits)) \<and>
   parse_chunk_selection (render_spec [Index 1, Index (10 ^ int_max_str_digits)]) 7 =
     Inl ValueError \<and>
   part_range ''abc'' = None \<and>
   parse_chunk_selection ''abc'' 7 = Inl ValueError"
proof -
  note t = parse_chunk_selection_within_digit_limit[where items = "[Index 1, Span 3 5]"
      and N = 10 and spec = "''1,3-5''" and xs = "[1, 3, 4, 5]"]
  have r: "render_spec [Index 1, Span 3 5] = ''1,3-5''" by code_simp
  have l: "item_below_limit (Index 1)" "item_below_limit (Span 3 5)"
    by (simp_all add: small_item_below_limit)
  then have "[Index 1, Span 3 5] \<noteq> [] \<and>
             (\<forall>item\<in>set [Index 1, Span 3 5]. item_below_limit item)"
    by (simp del: item_below_limit.simps)
  with t have "parse_chunk_selection (render_spec [Index 1, Span 3 5]) 10 =
        Inr (sorted_list_of_set
               {i. 0 \<le> i \<and> i < 10 \<and>
                   (\<exists>item\<in>set [Index 1, Span 3 5]. i \<in> item_indices item)})"
    by blast
  then have a: "parse_chunk_selection ''1,3-5'' 10 =
     Inr (sorted_list_of_set
            {i. 0 \<le> i \<and> i < 10 \<and> (i \<in> item_indices (Index 1) \<or> i \<in> item_indices (Span 3 5))})"
    unfolding r by (simp del: item_indices.simps)
  from t have b: "parse_chunk_selection ''1,3-5'' 10 = Inr [1, 3, 4, 5]" by blast
  with t have c: "sorted [1, 3, 4, 5 :: int] \<and> distinct [1, 3, 4, 5 :: int]" by blast
  have o: "\<not> item_below_limit (Index (10 ^ int_max_str_digits))" by simp
  then have "[Index 1, Index (10 ^ int_max_str_digits)] \<noteq> [] \<and>
     (\<exists>item\<in>set [Index 1, Index (10 ^ int_max_str_digits)]. \<not> item_below_limit item)"
    by (simp del: item_below_limit.simps)
  with parse_chunk_selection_within_digit_limit[where
      items = "[Index 1, Index (10 ^ int_max_str_digits)]" and N = 7]
  have v: "parse_chunk_selection (render_spec [Index 1, Index (10 ^ int_max_str_digits)]) 7 =
     Inl ValueError"
    by blast
  have p: "part_range ''abc'' = None" by code_simp
  have s: "str_split CHR '','' ''abc'' = [''abc'']" by code_simp
  have "''abc'' \<noteq> [] \<and> (\<exists>part\<in>set (str_split CHR '','' ''abc''). part_range part = None)"
    by (simp only: s) (simp add: p)
  with parse_chunk_selection_within_digit_limit[where spec = "''abc''" and N = 7]
  have d: "parse_chunk_selection ''abc'' 7 = Inl ValueError" by blast
  from r l a b c o v p d show ?thesis by blast
qed

end
